theory Spec2Isabelle
  imports Complex_Main "HOL-Library.Log_Nat" "HOL-Library.Word"
begin

section \<open>Data model of the maze pipeline (chatwindow.cpp)\<close>

text \<open>
  A \<open>QPoint\<close> is a pair of \<open>int\<close> coordinates \<open>(x, y)\<close>; a grid is a
  \<open>QVector<QVector<bool>>\<close>, indexed \<open>grid[y][x]\<close>, \<open>True\<close> meaning free.
  The embedding computes on unbounded integers; it agrees with the 32-bit \<open>int\<close> of the
  source as long as the number of cells \<open>gw * gh\<close> fits into an \<open>int\<close>.
\<close>

type_synonym point = "int \<times> int"
type_synonym grid = "bool list list"

datatype error = OutOfRange

text \<open>\<open>v[i]\<close> on a \<open>QVector\<close>: defined only for \<open>0 \<le> i < v.size()\<close>.\<close>

definition elemAt :: "'a list \<Rightarrow> int \<Rightarrow> 'a option" where
  "elemAt xs i = (if 0 \<le> i \<and> i < int (length xs) then Some (xs ! nat i) else None)"

section \<open>pathToMoves\<close>

text \<open>\<open>struct Move { QString dir; int steps; }\<close>\<close>

record move =
  dir :: string
  steps :: int

definition dirFromDelta :: "int \<Rightarrow> int \<Rightarrow> string" where
  "dirFromDelta dx dy =
     (if dx = 1 \<and> dy = 0 then ''E''
      else if dx = - 1 \<and> dy = 0 then ''W''
      else if dx = 0 \<and> dy = 1 then ''S''
      else if dx = 0 \<and> dy = - 1 then ''N''
      else ''?'')"

text \<open>
  The \<open>for\<close> loop of \<open>pathToMoves\<close> over \<open>gridPath[1..]\<close>; its state is
  \<open>prev\<close>, \<open>curDir\<close>, \<open>curSteps\<close> and the vector \<open>moves\<close>.
\<close>

fun movesLoop :: "point list \<Rightarrow> point \<Rightarrow> string \<Rightarrow> int \<Rightarrow> move list
    \<Rightarrow> string \<times> int \<times> move list" where
  "movesLoop [] prev curDir curSteps moves = (curDir, curSteps, moves)"
| "movesLoop (p # ps) prev curDir curSteps moves =
     (let d = dirFromDelta (fst p - fst prev) (snd p - snd prev) in
      if d = ''?'' then movesLoop ps p curDir curSteps moves
      else if curSteps = 0 then movesLoop ps p d 1 moves
      else if d = curDir then movesLoop ps p curDir (curSteps + 1) moves
      else movesLoop ps p d 1 (moves @ [\<lparr>dir = curDir, steps = curSteps\<rparr>]))"

text \<open>The vector \<open>moves\<close> after the loop and the final \<open>push_back\<close>.\<close>

definition collectMoves :: "point list \<Rightarrow> move list" where
  "collectMoves gridPath =
     (case movesLoop (tl gridPath) (hd gridPath) [] 0 [] of
        (curDir, curSteps, moves) \<Rightarrow>
          if curSteps > 0 then moves @ [\<lparr>dir = curDir, steps = curSteps\<rparr>] else moves)"

text \<open>Decimal rendering of a non-negative \<open>int\<close>, as \<open>QString::arg(int)\<close> prints it.\<close>

fun showNat :: "nat \<Rightarrow> string" where
  "showNat n =
     (if n < 10 then [''0123456789'' ! n]
      else showNat (n div 10) @ [''0123456789'' ! (n mod 10)])"

definition showInt :: "int \<Rightarrow> string" where
  "showInt i = (if i < 0 then CHR ''-'' # showNat (nat (- i)) else showNat (nat i))"

definition showMove :: "move \<Rightarrow> string" where
  "showMove m =
     ''{'' @ [CHR 0x22] @ ''dir'' @ [CHR 0x22] @ '':'' @ [CHR 0x22] @ dir m @ [CHR 0x22]
       @ '','' @ [CHR 0x22] @ ''steps'' @ [CHR 0x22] @ '':'' @ showInt (steps m) @ ''}''"

fun joinComma :: "string list \<Rightarrow> string" where
  "joinComma [] = []"
| "joinComma [s] = s"
| "joinComma (s # t # ss) = s @ '','' @ joinComma (t # ss)"

definition pathToMoves :: "point list \<Rightarrow> string" where
  "pathToMoves gridPath =
     (if length gridPath < 2 then ''{}''
      else ''['' @ joinComma (map showMove (collectMoves gridPath)) @ '']'')"







section \<open>Grid access\<close>

text \<open>\<open>grid[y][x]\<close>: both indexings must be in range.\<close>

definition cell :: "grid \<Rightarrow> int \<Rightarrow> int \<Rightarrow> bool option" where
  "cell grid x y = (case elemAt grid y of None \<Rightarrow> None | Some row \<Rightarrow> elemAt row x)"

text \<open>\<open>grid[y][x] = v\<close>\<close>

definition setCell :: "grid \<Rightarrow> int \<Rightarrow> int \<Rightarrow> bool \<Rightarrow> grid option" where
  "setCell grid x y v =
     (case elemAt grid y of None \<Rightarrow> None
      | Some row \<Rightarrow>
          if 0 \<le> x \<and> x < int (length row)
          then Some (grid[nat y := row[nat x := v]]) else None)"

text \<open>
  A well-formed occupancy grid: rectangular, at least 1 x 1, with a cell count that
  fits the \<open>int\<close> of the source.
\<close>

definition gridOk :: "grid \<Rightarrow> bool" where
  "gridOk grid \<longleftrightarrow>
     grid \<noteq> [] \<and> hd grid \<noteq> [] \<and> list_all (\<lambda>row. length row = length (hd grid)) grid
     \<and> length grid * length (hd grid) < 2 ^ 31"

definition inBounds :: "grid \<Rightarrow> point \<Rightarrow> bool" where
  "inBounds grid c \<longleftrightarrow>
     0 \<le> fst c \<and> fst c < int (length (hd grid)) \<and> 0 \<le> snd c \<and> snd c < int (length grid)"

definition isFree :: "grid \<Rightarrow> point \<Rightarrow> bool" where
  "isFree grid c \<longleftrightarrow> cell grid (fst c) (snd c) = Some True"

definition onBorder :: "grid \<Rightarrow> point \<Rightarrow> bool" where
  "onBorder grid c \<longleftrightarrow>
     inBounds grid c \<and>
     (snd c = 0 \<or> snd c = int (length grid) - 1
      \<or> fst c = 0 \<or> fst c = int (length (hd grid)) - 1)"

section \<open>findOpenings\<close>

text \<open>
  First loop, \<open>for (int x = 0; x < gw; ++x)\<close>, over the remaining values of \<open>x\<close>:
  the top cell, then the bottom cell of column \<open>x\<close>.
\<close>

fun scanTopBottom :: "grid \<Rightarrow> int \<Rightarrow> int list \<Rightarrow> point list \<Rightarrow> error + point list" where
  "scanTopBottom grid gh [] openings = Inr openings"
| "scanTopBottom grid gh (x # xs) openings =
     (case cell grid x 0 of
        None \<Rightarrow> Inl OutOfRange
      | Some topFree \<Rightarrow>
          let o1 = (if topFree then openings @ [(x, 0)] else openings) in
          (case cell grid x (gh - 1) of
             None \<Rightarrow> Inl OutOfRange
           | Some bottomFree \<Rightarrow>
               let o2 = (if bottomFree then o1 @ [(x, gh - 1)] else o1) in
               scanTopBottom grid gh xs o2))"

text \<open>
  Second loop, \<open>for (int y = 0; y < gh; ++y)\<close>: the left cell, then the right cell of
  row \<open>y\<close>.
\<close>

fun scanLeftRight :: "grid \<Rightarrow> int \<Rightarrow> int list \<Rightarrow> point list \<Rightarrow> error + point list" where
  "scanLeftRight grid gw [] openings = Inr openings"
| "scanLeftRight grid gw (y # ys) openings =
     (case cell grid 0 y of
        None \<Rightarrow> Inl OutOfRange
      | Some leftFree \<Rightarrow>
          let o1 = (if leftFree then openings @ [(0, y)] else openings) in
          (case cell grid (gw - 1) y of
             None \<Rightarrow> Inl OutOfRange
           | Some rightFree \<Rightarrow>
               let o2 = (if rightFree then o1 @ [(gw - 1, y)] else o1) in
               scanLeftRight grid gw ys o2))"

text \<open>
  \<open>findOpenings\<close>: \<open>Inr None\<close> is the return value \<open>false\<close> (start and goal left
  untouched), \<open>Inr (Some (start, goal))\<close> the return value \<open>true\<close>.
\<close>

definition findOpenings :: "grid \<Rightarrow> error + (point \<times> point) option" where
  "findOpenings grid =
     (let gh = int (length grid) in
      if gh = 0 then Inr None
      else
        let gw = int (length (grid ! 0)) in
        case scanTopBottom grid gh (upto 0 (gw - 1)) [] of
          Inl e \<Rightarrow> Inl e
        | Inr o1 \<Rightarrow>
            (case scanLeftRight grid gw (upto 0 (gh - 1)) o1 of
               Inl e \<Rightarrow> Inl e
             | Inr openings \<Rightarrow>
                 if length openings < 2 then Inr None
                 else Inr (Some (hd openings, last openings))))"

text \<open>
  The candidate list in the order the two loops produce it, and in the order
  "top row, bottom row, left column, right column".
\<close>

definition scanOrder :: "grid \<Rightarrow> point list" where
  "scanOrder grid =
     (let gh = int (length grid); gw = int (length (hd grid)) in
      concat (map (\<lambda>x. [(x, 0), (x, gh - 1)]) (upto 0 (gw - 1)))
      @ concat (map (\<lambda>y. [(0, y), (gw - 1, y)]) (upto 0 (gh - 1))))"


section \<open>Border sealing (solveMazeFromFile, "block all border cells except start and goal")\<close>

definition same :: "point \<Rightarrow> point \<Rightarrow> bool" where
  "same a b \<longleftrightarrow> fst a = fst b \<and> snd a = snd b"

fun sealTopBottom :: "int \<Rightarrow> point \<Rightarrow> point \<Rightarrow> int list \<Rightarrow> grid \<Rightarrow> error + grid" where
  "sealTopBottom gh start goal [] grid = Inr grid"
| "sealTopBottom gh start goal (x # xs) grid =
     (let topP = (x, 0); bottomP = (x, gh - 1) in
      case (if \<not> same topP start \<and> \<not> same topP goal then setCell grid x 0 False
            else Some grid) of
        None \<Rightarrow> Inl OutOfRange
      | Some g1 \<Rightarrow>
          (case (if \<not> same bottomP start \<and> \<not> same bottomP goal
                 then setCell g1 x (gh - 1) False else Some g1) of
             None \<Rightarrow> Inl OutOfRange
           | Some g2 \<Rightarrow> sealTopBottom gh start goal xs g2))"

fun sealLeftRight :: "int \<Rightarrow> point \<Rightarrow> point \<Rightarrow> int list \<Rightarrow> grid \<Rightarrow> error + grid" where
  "sealLeftRight gw start goal [] grid = Inr grid"
| "sealLeftRight gw start goal (y # ys) grid =
     (let leftP = (0, y); rightP = (gw - 1, y) in
      case (if \<not> same leftP start \<and> \<not> same leftP goal then setCell grid 0 y False
            else Some grid) of
        None \<Rightarrow> Inl OutOfRange
      | Some g1 \<Rightarrow>
          (case (if \<not> same rightP start \<and> \<not> same rightP goal
                 then setCell g1 (gw - 1) y False else Some g1) of
             None \<Rightarrow> Inl OutOfRange
           | Some g2 \<Rightarrow> sealLeftRight gw start goal ys g2))"

text \<open>
  The sealing step runs after \<open>findOpenings\<close> returned \<open>true\<close>, so \<open>grid\<close> has at
  least one row; \<open>grid[0]\<close> on an empty grid is out of range.
\<close>

definition sealBorder :: "grid \<Rightarrow> point \<Rightarrow> point \<Rightarrow> error + grid" where
  "sealBorder grid start goal =
     (case elemAt grid 0 of
        None \<Rightarrow> Inl OutOfRange
      | Some row0 \<Rightarrow>
          let gh = int (length grid); gw = int (length row0) in
          (case sealTopBottom gh start goal (upto 0 (gw - 1)) grid of
             Inl e \<Rightarrow> Inl e
           | Inr g1 \<Rightarrow> sealLeftRight gw start goal (upto 0 (gh - 1)) g1))"

section \<open>bfsPath\<close>

text \<open>
  The working state of the search: the queue \<open>q\<close>, the distance array \<open>dist\<close>
  (\<open>-1\<close> = not visited) and the array \<open>parent\<close>, both indexed by \<open>idx(x, y)\<close>.
\<close>

record bfs_state =
  queue :: "point list"
  dist :: "int list"
  parent :: "point list"

definition idx :: "int \<Rightarrow> point \<Rightarrow> int" where
  "idx gw c = snd c * gw + fst c"

text \<open>The neighbour offsets \<open>(dx[k], dy[k])\<close> for \<open>k = 0..3\<close>: east, west, south, north.\<close>

definition deltas :: "(int \<times> int) list" where
  "deltas = [(1, 0), (- 1, 0), (0, 1), (0, - 1)]"

text \<open>One pass through the body of the loop over \<open>k\<close>, for the popped cell \<open>u\<close>.\<close>

definition visit :: "grid \<Rightarrow> int \<Rightarrow> int \<Rightarrow> point \<Rightarrow> int \<times> int \<Rightarrow> bfs_state
    \<Rightarrow> error + bfs_state" where
  "visit grid gw gh u d st =
     (let nx = fst u + fst d; ny = snd u + snd d in
      if nx < 0 \<or> ny < 0 \<or> nx \<ge> gw \<or> ny \<ge> gh then Inr st
      else
        (case cell grid nx ny of
           None \<Rightarrow> Inl OutOfRange
         | Some free \<Rightarrow>
             if \<not> free then Inr st
             else
               let i = idx gw (nx, ny) in
               (case elemAt (dist st) i of
                  None \<Rightarrow> Inl OutOfRange
                | Some dn \<Rightarrow>
                    if dn \<noteq> - 1 then Inr st
                    else
                      (case elemAt (dist st) (idx gw u) of
                         None \<Rightarrow> Inl OutOfRange
                       | Some du \<Rightarrow>
                           (case elemAt (parent st) i of
                              None \<Rightarrow> Inl OutOfRange
                            | Some _ \<Rightarrow>
                                Inr \<lparr>queue = queue st @ [(nx, ny)],
                                     dist = (dist st)[nat i := du + 1],
                                     parent = (parent st)[nat i := u]\<rparr>)))))"

fun visitAll :: "grid \<Rightarrow> int \<Rightarrow> int \<Rightarrow> point \<Rightarrow> (int \<times> int) list \<Rightarrow> bfs_state
    \<Rightarrow> error + bfs_state" where
  "visitAll grid gw gh u [] st = Inr st"
| "visitAll grid gw gh u (d # ds) st =
     (case visit grid gw gh u d st of
        Inl e \<Rightarrow> Inl e
      | Inr st' \<Rightarrow> visitAll grid gw gh u ds st')"

text \<open>
  The loop \<open>while (!q.empty())\<close>. \<open>None\<close> stands for a loop that never ends; that
  it always ends is part of what is proved below.
\<close>

partial_function (option) bfsLoop :: "grid \<Rightarrow> int \<Rightarrow> int \<Rightarrow> point \<Rightarrow> bfs_state
    \<Rightarrow> (error + bfs_state) option" where
  "bfsLoop grid gw gh goal st =
     (case queue st of
        [] \<Rightarrow> Some (Inr st)
      | u # q \<Rightarrow>
          if u = goal then Some (Inr (st\<lparr>queue := q\<rparr>))
          else
            (case visitAll grid gw gh u deltas (st\<lparr>queue := q\<rparr>) of
               Inl e \<Rightarrow> Some (Inl e)
             | Inr st' \<Rightarrow> bfsLoop grid gw gh goal st'))"

declare bfsLoop.simps [code]

text \<open>
  The reconstruction loop
  \<open>for (QPoint v = goal; v != QPoint(-1,-1); v = parent[idx(v.x(),v.y())])\<close>.
\<close>

partial_function (option) walkBack :: "int \<Rightarrow> point \<Rightarrow> point list \<Rightarrow> point \<Rightarrow> point list
    \<Rightarrow> (error + point list) option" where
  "walkBack gw start par v path =
     (if v = (- 1, - 1) then Some (Inr path)
      else
        let path' = path @ [v] in
        if v = start then Some (Inr path')
        else
          (case elemAt par (idx gw v) of
             None \<Rightarrow> Some (Inl OutOfRange)
           | Some p \<Rightarrow> walkBack gw start par p path'))"

declare walkBack.simps [code]

definition bfsPath :: "grid \<Rightarrow> point \<Rightarrow> point \<Rightarrow> (error + point list) option" where
  "bfsPath grid start goal =
     (let gh = int (length grid) in
      if gh = 0 then Some (Inr [])
      else
        let gw = int (length (grid ! 0));
            dist0 = replicate (nat (gw * gh)) (- 1 :: int);
            parent0 = replicate (nat (gw * gh)) ((- 1, - 1) :: point)
        in
        (case elemAt dist0 (idx gw start) of
           None \<Rightarrow> Some (Inl OutOfRange)
         | Some _ \<Rightarrow>
             let st0 = \<lparr>queue = [start],
                        dist = dist0[nat (idx gw start) := 0],
                        parent = parent0\<rparr>
             in
             (case bfsLoop grid gw gh goal st0 of
                None \<Rightarrow> None
              | Some (Inl e) \<Rightarrow> Some (Inl e)
              | Some (Inr st) \<Rightarrow>
                  (case elemAt (dist st) (idx gw goal) of
                     None \<Rightarrow> Some (Inl OutOfRange)
                   | Some dg \<Rightarrow>
                       if dg = - 1 then Some (Inr [])
                       else
                         (case walkBack gw start (parent st) goal [] of
                            None \<Rightarrow> None
                          | Some (Inl e) \<Rightarrow> Some (Inl e)
                          | Some (Inr path) \<Rightarrow> Some (Inr (rev path)))))))"

section \<open>Normalised coordinates (solveMazeFromFile, "Convert grid cells")\<close>

text \<open>
  The source computes in \<open>double\<close>; the embedding computes over the reals and returns
  \<open>None\<close> where the source divides by zero. Both agree wherever every intermediate
  value is a binary fraction that a \<open>double\<close> holds exactly, as at the inputs evaluated
  below. \<open>qBound(min, val, max)\<close> is \<open>qMax(min, qMin(max, val))\<close>.
\<close>

definition qBound :: "real \<Rightarrow> real \<Rightarrow> real \<Rightarrow> real" where
  "qBound lo v hi = max lo (min hi v)"

text \<open>
  One axis: \<open>dimension\<close> is \<open>mazeOnly.width()\<close> (or \<open>height()\<close>), \<open>k\<close> is
  \<open>c.x()\<close> (or \<open>c.y()\<close>).
\<close>

definition normAxis :: "int \<Rightarrow> int \<Rightarrow> int \<Rightarrow> real option" where
  "normAxis dimension cellSize k =
     (let w = real_of_int dimension - 1;
          cx = (real_of_int k + 0.5) * real_of_int cellSize;
          cx' = qBound 0.0 cx (w - 1.0)
      in if w - 1.0 = 0 then None else Some (cx' / (w - 1.0)))"

definition normalizeCell :: "int \<Rightarrow> int \<Rightarrow> int \<Rightarrow> point \<Rightarrow> (real \<times> real) option" where
  "normalizeCell width height cellSize c =
     (case normAxis width cellSize (fst c) of
        None \<Rightarrow> None
      | Some nx \<Rightarrow>
          (case normAxis height cellSize (snd c) of
             None \<Rightarrow> None
           | Some ny \<Rightarrow> Some (nx, ny)))"

text \<open>The drawing code maps a normalised coordinate back with \<open>bbox.x() + qBound(0.0, x, 1.0) * w\<close>.\<close>

definition mapAxis :: "int \<Rightarrow> int \<Rightarrow> real \<Rightarrow> real" where
  "mapAxis bboxOrigin dimension x =
     real_of_int bboxOrigin + qBound 0.0 x 1.0 * (real_of_int dimension - 1)"

section \<open>buildGrid\<close>

subsection \<open>Double arithmetic\<close>

text \<open>
  A \<open>double\<close> is modelled by the rational number it denotes. \<open>toDouble q\<close> is \<open>q\<close>
  rounded to the nearest binary64 number, ties to even: with \<open>2 ^ e \<le> |q| < 2 ^ (e + 1)\<close>
  the significand \<open>q / 2 ^ (e - 52)\<close> is rounded to an integer. An arithmetic operation of
  the source is the exact operation followed by \<open>toDouble\<close>, each operation rounded on
  its own, and a literal is \<open>toDouble\<close> of its decimal value. Overflow and subnormal
  numbers are not modelled: the values of \<open>buildGrid\<close> lie between 0 and 255 and are
  zero or at least \<open>2 ^ - 31\<close>. The conversion of an \<open>int\<close> to \<open>double\<close> is exact.
\<close>

definition pow2 :: "int \<Rightarrow> rat" where
  "pow2 k = (if 0 \<le> k then 2 ^ nat k else 1 / 2 ^ nat (- k))"

definition roundEven :: "rat \<Rightarrow> int" where
  "roundEven q =
     (let f = \<lfloor>q\<rfloor>; r = q - of_int f in
      if r < 1 / 2 then f else if 1 / 2 < r then f + 1 else if even f then f else f + 1)"

definition binade :: "rat \<Rightarrow> int" where
  "binade q =
     (case quotient_of q of
        (a, b) \<Rightarrow> let k = bitlen a - bitlen b in if pow2 k \<le> q then k else k - 1)"

definition toDouble :: "rat \<Rightarrow> rat" where
  "toDouble q =
     (if q = 0 then 0
      else let u = pow2 (binade \<bar>q\<bar> - 52) in of_int (roundEven (q / u)) * u)"

text \<open>The literal \<open>0.7\<close>.\<close>

definition lit07 :: rat where
  "lit07 = toDouble (7 / 10)"


text \<open>\<open>int(d)\<close> for a \<open>double\<close> \<open>d\<close>: truncation towards zero.\<close>

definition truncToInt :: "rat \<Rightarrow> int" where
  "truncToInt q = (if 0 \<le> q then \<lfloor>q\<rfloor> else \<lceil>q\<rceil>)"

subsection \<open>Images\<close>

text \<open>
  A \<open>QRgb\<close> is an unsigned 32-bit value \<open>0xAARRGGBB\<close>; \<open>qRed\<close> is
  \<open>(rgb >> 16) & 0xff\<close>, and likewise \<open>qGreen\<close> and \<open>qBlue\<close>. Of a \<open>QImage\<close> the
  code reads \<open>width()\<close>, \<open>height()\<close> and \<open>pixel(x, y)\<close>, the last only inside the
  bounds.
\<close>

unbundle bit_operations_syntax

type_synonym QRgb = "32 word"

definition qRed :: "QRgb \<Rightarrow> int" where
  "qRed rgb = uint (drop_bit 16 rgb AND 0xff)"

definition qGreen :: "QRgb \<Rightarrow> int" where
  "qGreen rgb = uint (drop_bit 8 rgb AND 0xff)"

definition qBlue :: "QRgb \<Rightarrow> int" where
  "qBlue rgb = uint (rgb AND 0xff)"

record image =
  width :: int
  height :: int
  pixel :: "int \<Rightarrow> int \<Rightarrow> QRgb"

definition isWhite :: "image \<Rightarrow> int \<Rightarrow> int \<Rightarrow> bool" where
  "isWhite img x y =
     (if x < 0 \<or> y < 0 \<or> x \<ge> width img \<or> y \<ge> height img then False
      else
        let c = pixel img x y;
            lum = truncToInt
                    (toDouble
                       (toDouble (toDouble (toDouble (2126 / 10000) * of_int (qRed c))
                                  + toDouble (toDouble (7152 / 10000) * of_int (qGreen c)))
                        + toDouble (toDouble (722 / 10000) * of_int (qBlue c))))
        in lum > 230)"


subsection \<open>The grid\<close>

text \<open>
  \<open>QVector::resize(n)\<close> keeps the first \<open>n\<close> elements and fills up with default
  values. The division of two \<open>int\<close> truncates towards zero.
\<close>

definition resizeTo :: "nat \<Rightarrow> 'a \<Rightarrow> 'a list \<Rightarrow> 'a list" where
  "resizeTo n d xs = take n xs @ replicate (n - length xs) d"

definition truncDiv :: "int \<Rightarrow> int \<Rightarrow> int" where
  "truncDiv a b = sgn a * sgn b * (\<bar>a\<bar> div \<bar>b\<bar>)"

text \<open>
  The two loops that sample every pixel of a cell: over \<open>x\<close> for one \<open>y\<close>, and over
  \<open>y\<close>. The state is \<open>(whiteCount, total)\<close>; \<open>total\<close> is written \<open>totalCount\<close>.
\<close>

fun countRow :: "image \<Rightarrow> int \<Rightarrow> int list \<Rightarrow> int \<times> int \<Rightarrow> int \<times> int" where
  "countRow maze y [] (whiteCount, totalCount) = (whiteCount, totalCount)"
| "countRow maze y (x # xs) (whiteCount, totalCount) =
     countRow maze y xs (if isWhite maze x y then whiteCount + 1 else whiteCount, totalCount + 1)"

fun countCell :: "image \<Rightarrow> int list \<Rightarrow> int list \<Rightarrow> int \<times> int \<Rightarrow> int \<times> int" where
  "countCell maze xs [] counts = counts"
| "countCell maze xs (y # ys) counts = countCell maze xs ys (countRow maze y xs counts)"

text \<open>The body of the loop over \<open>gx\<close>: the value assigned to \<open>grid[gy][gx]\<close>.\<close>

definition classifyCell :: "image \<Rightarrow> int \<Rightarrow> int \<Rightarrow> int \<Rightarrow> bool" where
  "classifyCell maze cellSize gx gy =
     (let x0 = gx * cellSize;
          y0 = gy * cellSize;
          x1 = min (x0 + cellSize) (width maze);
          y1 = min (y0 + cellSize) (height maze)
      in case countCell maze (upto x0 (x1 - 1)) (upto y0 (y1 - 1)) (0, 0) of
           (whiteCount, totalCount) \<Rightarrow>
             let ratio = (if totalCount > 0 then toDouble (of_int whiteCount / of_int totalCount) else 0)
             in ratio > lit07)"

text \<open>
  The loop over \<open>gx\<close>, on the row \<open>grid[gy]\<close>, and the loop over \<open>gy\<close>, which
  first resizes the row. \<open>None\<close> is an index out of range.
\<close>

fun fillRow :: "image \<Rightarrow> int \<Rightarrow> int \<Rightarrow> int list \<Rightarrow> bool list \<Rightarrow> bool list option" where
  "fillRow maze cellSize gy [] row = Some row"
| "fillRow maze cellSize gy (gx # gxs) row =
     (if 0 \<le> gx \<and> gx < int (length row)
      then fillRow maze cellSize gy gxs (row[nat gx := classifyCell maze cellSize gx gy])
      else None)"

fun fillRows :: "image \<Rightarrow> int \<Rightarrow> int \<Rightarrow> int list \<Rightarrow> bool list list \<Rightarrow> bool list list option" where
  "fillRows maze cellSize gw [] grid = Some grid"
| "fillRows maze cellSize gw (gy # gys) grid =
     (if 0 \<le> gy \<and> gy < int (length grid)
      then
        (case fillRow maze cellSize gy (upto 0 (gw - 1))
                (resizeTo (nat gw) False (grid ! nat gy)) of
           None \<Rightarrow> None
         | Some row \<Rightarrow> fillRows maze cellSize gw gys (grid[nat gy := row]))
      else None)"

text \<open>\<open>buildGrid\<close>; \<open>None\<close> also stands for the division by a cell size of zero.\<close>

definition buildGrid :: "image \<Rightarrow> int \<Rightarrow> bool list list \<Rightarrow> bool list list option" where
  "buildGrid maze cellSize grid =
     (if cellSize = 0 then None
      else
        let gw = truncDiv (width maze + cellSize - 1) cellSize;
            gh = truncDiv (height maze + cellSize - 1) cellSize
        in fillRows maze cellSize gw (upto 0 (gh - 1)) (resizeTo (nat gh) [] grid))"

text \<open>
  Reading the result: the pixels of the image that lie in cell \<open>(gx, gy)\<close>, the fraction
  of them that \<open>isWhite\<close> accepts, and the same fraction for the real-valued luminance
  \<open>0.2126 R + 0.7152 G + 0.0722 B\<close> compared with 230. An image and a cell size are
  well-formed when the cell size is at least 1, the dimensions are not negative, and
  the sums and the pixel count of the code fit an \<open>int\<close>.
\<close>

definition cellPixels :: "image \<Rightarrow> int \<Rightarrow> int \<Rightarrow> int \<Rightarrow> (int \<times> int) list" where
  "cellPixels maze cellSize gx gy =
     concat (map (\<lambda>y. map (\<lambda>x. (x, y))
                    (upto (gx * cellSize) (min (gx * cellSize + cellSize) (width maze) - 1)))
              (upto (gy * cellSize) (min (gy * cellSize + cellSize) (height maze) - 1)))"

definition whiteFraction :: "image \<Rightarrow> int \<Rightarrow> int \<Rightarrow> int \<Rightarrow> rat" where
  "whiteFraction maze cellSize gx gy =
     of_nat (length (filter (\<lambda>p. isWhite maze (fst p) (snd p)) (cellPixels maze cellSize gx gy)))
       / of_nat (length (cellPixels maze cellSize gx gy))"

definition specLuminance :: "QRgb \<Rightarrow> rat" where
  "specLuminance c =
     2126 / 10000 * of_int (qRed c) + 7152 / 10000 * of_int (qGreen c)
       + 722 / 10000 * of_int (qBlue c)"

definition specWhiteFraction :: "image \<Rightarrow> int \<Rightarrow> int \<Rightarrow> int \<Rightarrow> rat" where
  "specWhiteFraction maze cellSize gx gy =
     of_nat (length (filter (\<lambda>p. 230 < specLuminance (pixel maze (fst p) (snd p)))
                       (cellPixels maze cellSize gx gy)))
       / of_nat (length (cellPixels maze cellSize gx gy))"

definition imageOk :: "image \<Rightarrow> int \<Rightarrow> bool" where
  "imageOk maze cellSize \<longleftrightarrow>
     1 \<le> cellSize \<and> 0 \<le> width maze \<and> 0 \<le> height maze
     \<and> width maze + cellSize < 2 ^ 31 \<and> height maze + cellSize < 2 ^ 31
     \<and> width maze * height maze < 2 ^ 31"

section \<open>Notions for the correctness of the search\<close>

text \<open>
  A list of cells in which every cell is related to its successor; the cells inside the
  grid; the steps the search takes (to a four-adjacent free cell inside the grid); the
  arrays of a state read at a cell; the number of unvisited entries; and the invariant
  of the search loop, stated for the cells \<open>os\<close> that are visited but not yet
  expanded.
\<close>

fun stepsOk :: "('a \<Rightarrow> 'a \<Rightarrow> bool) \<Rightarrow> 'a list \<Rightarrow> bool" where
  "stepsOk E [] = True"
| "stepsOk E [c] = True"
| "stepsOk E (a # b # cs) = (E a b \<and> stepsOk E (b # cs))"

definition binv :: "('a \<Rightarrow> bool) \<Rightarrow> ('a \<Rightarrow> 'a \<Rightarrow> bool) \<Rightarrow> 'a \<Rightarrow> 'a list
    \<Rightarrow> ('a \<Rightarrow> int) \<Rightarrow> ('a \<Rightarrow> 'a) \<Rightarrow> bool" where
  "binv B E s os D P \<longleftrightarrow>
     (\<forall>c \<in> set os. B c \<and> 0 \<le> D c)
     \<and> sorted (map D os)
     \<and> (\<forall>c. B c \<longrightarrow> - 1 \<le> D c)
     \<and> (os \<noteq> [] \<longrightarrow> (\<forall>c. B c \<longrightarrow> D c \<le> D (hd os) + 1))
     \<and> B s \<and> D s = 0
     \<and> (\<forall>c. B c \<and> D c \<noteq> - 1 \<and> c \<noteq> s
            \<longrightarrow> B (P c) \<and> 0 \<le> D (P c) \<and> D c = D (P c) + 1 \<and> E (P c) c)
     \<and> (\<forall>c n. B c \<and> D c \<noteq> - 1 \<and> c \<notin> set os \<and> E c n \<longrightarrow> D n \<noteq> - 1 \<and> D n \<le> D c + 1)"

definition inb :: "int \<Rightarrow> int \<Rightarrow> point \<Rightarrow> bool" where
  "inb gw gh c \<longleftrightarrow> 0 \<le> fst c \<and> fst c < gw \<and> 0 \<le> snd c \<and> snd c < gh"

definition edge :: "grid \<Rightarrow> int \<Rightarrow> int \<Rightarrow> point \<Rightarrow> point \<Rightarrow> bool" where
  "edge g gw gh u v \<longleftrightarrow>
     inb gw gh v \<and> isFree g v \<and> (fst v - fst u, snd v - snd u) \<in> set deltas"

definition Dof :: "int \<Rightarrow> bfs_state \<Rightarrow> point \<Rightarrow> int" where
  "Dof gw st c = dist st ! nat (idx gw c)"

definition Pof :: "int \<Rightarrow> bfs_state \<Rightarrow> point \<Rightarrow> point" where
  "Pof gw st c = parent st ! nat (idx gw c)"

definition unv :: "bfs_state \<Rightarrow> nat" where
  "unv st = length (filter (\<lambda>v. v = - 1) (dist st))"

definition cinv :: "int \<Rightarrow> int \<Rightarrow> bfs_state \<Rightarrow> bool" where
  "cinv gw gh st \<longleftrightarrow>
     length (dist st) = nat (gw * gh) \<and> length (parent st) = nat (gw * gh)"

text \<open>
  Paths. \<open>walkTo g s t p\<close>: \<open>p\<close> leads from \<open>s\<close> to \<open>t\<close> by steps of the
  search, so every cell after the first is a free cell of the grid. \<open>freePath g s t p\<close>:
  \<open>p\<close> leads from \<open>s\<close> to \<open>t\<close>, all its cells are free cells of the grid, and
  consecutive cells are four-adjacent.
\<close>

definition walkTo :: "grid \<Rightarrow> point \<Rightarrow> point \<Rightarrow> point list \<Rightarrow> bool" where
  "walkTo g s t p \<longleftrightarrow>
     p \<noteq> [] \<and> hd p = s \<and> last p = t
     \<and> stepsOk (edge g (int (length (hd g))) (int (length g))) p"

definition fourAdjacent :: "point \<Rightarrow> point \<Rightarrow> bool" where
  "fourAdjacent a b \<longleftrightarrow> \<bar>fst b - fst a\<bar> + \<bar>snd b - snd a\<bar> = 1"

definition freePath :: "grid \<Rightarrow> point \<Rightarrow> point \<Rightarrow> point list \<Rightarrow> bool" where
  "freePath g s t p \<longleftrightarrow>
     p \<noteq> [] \<and> hd p = s \<and> last p = t
     \<and> list_all (\<lambda>c. inBounds g c \<and> isFree g c) p
     \<and> stepsOk fourAdjacent p"

section \<open>Auxiliary notions and example grids\<close>

definition shape :: "int \<Rightarrow> int \<Rightarrow> grid \<Rightarrow> bool" where
  "shape gw gh g \<longleftrightarrow> int (length g) = gh \<and> (\<forall>row \<in> set g. int (length row) = gw)"

definition grid4 :: grid where
  "grid4 = [[False, False, True, False],
            [False, True, True, False],
            [False, True, False, False],
            [False, True, False, False]]"

definition gridCorner :: grid where
  "gridCorner = [[True, False], [False, False]]"

definition grid3 :: grid where
  "grid3 = [[True, True, True], [True, True, True], [True, True, True]]"

definition gridTwoOpenings :: grid where
  "gridTwoOpenings = [[True, False, True, False], [False, False, False, False]]"

definition grayImage :: image where
  "grayImage = \<lparr>width = 1, height = 1, pixel = (\<lambda>x y. 0xFFE7E6E6)\<rparr>"

definition smallImage :: image where
  "smallImage =
     \<lparr>width = 3, height = 1, pixel = (\<lambda>x y. if x < 2 then 0xFFFFFFFF else 0xFFD6F1B6)\<rparr>"

section \<open>Properties\<close>













text \<open>
  Claim C9. A path of fewer than two cells yields no move: \<open>pathToMoves\<close> returns the
  literal \<open>{}\<close> before any move is collected.
\<close>

theorem pathToMoves_short_path:
  "length gridPath < 2 \<Longrightarrow> pathToMoves gridPath = ''{}''"
  by (simp add: pathToMoves_def)

theorem pathToMoves_short_path_witness:
  "length [(0, 0) :: point] < 2 \<and> pathToMoves [(0, 0)] = ''{}''"
  using pathToMoves_short_path[of "[(0, 0)]"] by simp

lemma gridOk_D:
  "gridOk g \<Longrightarrow> g \<noteq> [] \<and> hd g \<noteq> [] \<and> list_all (\<lambda>row. length row = length (hd g)) g"
  unfolding gridOk_def by blast

lemma gridOk_shape: "gridOk g \<Longrightarrow> shape (int (length (hd g))) (int (length g)) g"
proof -
  assume "gridOk g"
  then have "list_all (\<lambda>row. length row = length (hd g)) g" by (blast dest: gridOk_D)
  then have "\<forall>row \<in> set g. length row = length (hd g)"
    unfolding list_all_iff .
  then have "\<forall>row \<in> set g. int (length row) = int (length (hd g))"
    by metis
  then show ?thesis unfolding shape_def by blast
qed

lemma gridOk_pos: "gridOk g \<Longrightarrow> 0 < int (length (hd g)) \<and> 0 < int (length g)"
  by (drule gridOk_D) simp

lemma gridOk_hd: "gridOk g \<Longrightarrow> g ! 0 = hd g"
  by (drule gridOk_D) (cases g, simp_all)

lemma shape_cell:
  assumes "shape gw gh g"
  shows "cell g x y = (if 0 \<le> x \<and> x < gw \<and> 0 \<le> y \<and> y < gh then Some (g ! nat y ! nat x) else None)"
proof (cases "0 \<le> y \<and> y < gh")
  case True
  then have "nat y < length g" using assms by (auto simp: shape_def)
  then have "g ! nat y \<in> set g" by simp
  then have "int (length (g ! nat y)) = gw" using assms by (auto simp: shape_def)
  then show ?thesis using True assms by (auto simp: cell_def elemAt_def shape_def)
next
  case False
  then show ?thesis using assms by (auto simp: cell_def elemAt_def shape_def)
qed

lemma setCell_shape:
  assumes "shape gw gh g" "0 \<le> x" "x < gw" "0 \<le> y" "y < gh"
  shows "\<exists>g'. setCell g x y v = Some g' \<and> shape gw gh g'
     \<and> (\<forall>x' y'. cell g' x' y' = (if x' = x \<and> y' = y then Some v else cell g x' y'))"
proof -
  have ylen: "nat y < length g" using assms by (auto simp: shape_def)
  then have "g ! nat y \<in> set g" by simp
  then have rl: "int (length (g ! nat y)) = gw" using assms by (auto simp: shape_def)
  let ?g' = "g[nat y := (g ! nat y)[nat x := v]]"
  have s: "setCell g x y v = Some ?g'"
    using assms ylen rl by (simp add: setCell_def elemAt_def)
  have "set ?g' \<subseteq> insert ((g ! nat y)[nat x := v]) (set g)"
    by (rule set_update_subset_insert)
  then have "\<forall>row \<in> set ?g'. int (length row) = gw"
    using assms(1) rl by (auto simp: shape_def)
  then have sh: "shape gw gh ?g'"
    using assms(1) by (simp add: shape_def)
  have "cell ?g' x' y' = (if x' = x \<and> y' = y then Some v else cell g x' y')" for x' y'
  proof (cases "0 \<le> x' \<and> x' < gw \<and> 0 \<le> y' \<and> y' < gh")
    case False
    then show ?thesis
      using shape_cell[OF sh, of x' y'] shape_cell[OF assms(1), of x' y'] assms(2-5) by auto
  next
    case True
    then have c': "cell ?g' x' y' = Some (?g' ! nat y' ! nat x')"
      and c: "cell g x' y' = Some (g ! nat y' ! nat x')"
      using shape_cell[OF sh, of x' y'] shape_cell[OF assms(1), of x' y'] by simp_all
    show ?thesis
    proof (cases "y' = y")
      case ysame: True
      have "?g' ! nat y' = (g ! nat y)[nat x := v]" using ysame ylen by simp
      moreover have "nat x < length (g ! nat y)" using rl assms(2,3) by linarith
      moreover have "nat x' = nat x \<longleftrightarrow> x' = x" using True assms(2) by linarith
      ultimately show ?thesis using c c' ysame by (auto simp: nth_list_update)
    next
      case ydiff: False
      have "nat y' \<noteq> nat y" using ydiff True assms(4) by linarith
      then have "?g' ! nat y' = g ! nat y'" by simp
      then show ?thesis using c c' ydiff by simp
    qed
  qed
  with s sh show ?thesis by blast
qed










lemma border_free_gridCorner: "{c. onBorder gridCorner c \<and> isFree gridCorner c} = {(0, 0)}"
proof -
  have "onBorder gridCorner (x, y) \<and> isFree gridCorner (x, y) \<longleftrightarrow> x = 0 \<and> y = 0" for x y
  proof -
    have "x = 0 \<or> x = 1" "y = 0 \<or> y = 1" if "onBorder gridCorner (x, y)"
      using that by (auto simp: onBorder_def inBounds_def gridCorner_def)
    then show ?thesis
      by (auto simp: onBorder_def inBounds_def isFree_def gridCorner_def cell_def elemAt_def)
  qed
  then show ?thesis by auto
qed

text \<open>
  Claim C3 says that \<open>findOpenings\<close> fails exactly when fewer than two border cells
  are free. The code counts list entries, not cells: both loops visit the corners, so a
  free corner cell is appended by the first loop and again by the second. On
  \<open>gridCorner\<close> the only free border cell is the corner \<open>(0,0)\<close>, yet the list has
  two entries and \<open>findOpenings\<close> returns true with start and goal both \<open>(0,0)\<close>.
  On \<open>gridTwoOpenings\<close>, where \<open>(0,0)\<close> and \<open>(2,0)\<close> are free, the second
  entry of the corner is the last of the list, and start and goal are again both
  \<open>(0,0)\<close>.
\<close>

theorem findOpenings_corner_counted_twice:
  "card {c. onBorder gridCorner c \<and> isFree gridCorner c} < 2
   \<and> findOpenings gridCorner = Inr (Some ((0, 0), (0, 0)))
   \<and> filter (isFree gridTwoOpenings) (scanOrder gridTwoOpenings) = [(0, 0), (2, 0), (0, 0)]
   \<and> findOpenings gridTwoOpenings = Inr (Some ((0, 0), (0, 0)))"
proof -
  have "findOpenings gridCorner = Inr (Some ((0, 0), (0, 0)))" by code_simp
  moreover have "filter (isFree gridTwoOpenings) (scanOrder gridTwoOpenings)
      = [(0, 0), (2, 0), (0, 0)]" by code_simp
  moreover have "findOpenings gridTwoOpenings = Inr (Some ((0, 0), (0, 0)))" by code_simp
  ultimately show ?thesis by (simp add: border_free_gridCorner)
qed

lemma seal_one:
  assumes "shape gw gh g" "0 \<le> x" "x < gw" "0 \<le> y" "y < gh"
  shows "\<exists>g1. (if \<not> same (x, y) s \<and> \<not> same (x, y) t then setCell g x y False else Some g) = Some g1
     \<and> shape gw gh g1
     \<and> (\<forall>x' y'. cell g1 x' y' =
            (if x' = x \<and> y' = y \<and> (x, y) \<noteq> s \<and> (x, y) \<noteq> t then Some False else cell g x' y'))"
proof (cases "(x, y) \<noteq> s \<and> (x, y) \<noteq> t")
  case True
  then have "\<not> same (x, y) s \<and> \<not> same (x, y) t" by (auto simp: same_def)
  then show ?thesis using setCell_shape[OF assms, of False] True by auto
next
  case False
  then have "\<not> (\<not> same (x, y) s \<and> \<not> same (x, y) t)" by (auto simp: same_def)
  then show ?thesis using assms(1) False by auto
qed

lemma sealTopBottom_cells:
  assumes "0 < gh" "\<forall>x \<in> set xs. 0 \<le> x \<and> x < gw" "shape gw gh g"
  shows "\<exists>g'. sealTopBottom gh s t xs g = Inr g' \<and> shape gw gh g'
     \<and> (\<forall>x' y'. cell g' x' y' =
          (if x' \<in> set xs \<and> (y' = 0 \<or> y' = gh - 1) \<and> (x', y') \<noteq> s \<and> (x', y') \<noteq> t
           then Some False else cell g x' y'))"
  using assms(2,3)
proof (induction xs arbitrary: g)
  case Nil
  then show ?case by simp
next
  case (Cons x xs)
  have xr: "0 \<le> x" "x < gw" using Cons.prems by auto
  obtain g1 where g1: "(if \<not> same (x, 0) s \<and> \<not> same (x, 0) t then setCell g x 0 False else Some g) = Some g1"
    "shape gw gh g1"
    "\<And>x' y'. cell g1 x' y' = (if x' = x \<and> y' = 0 \<and> (x, 0) \<noteq> s \<and> (x, 0) \<noteq> t then Some False else cell g x' y')"
    using seal_one[OF Cons.prems(2) xr, of 0 s t] assms(1) by auto
  obtain g2 where g2: "(if \<not> same (x, gh - 1) s \<and> \<not> same (x, gh - 1) t then setCell g1 x (gh - 1) False else Some g1) = Some g2"
    "shape gw gh g2"
    "\<And>x' y'. cell g2 x' y' = (if x' = x \<and> y' = gh - 1 \<and> (x, gh - 1) \<noteq> s \<and> (x, gh - 1) \<noteq> t then Some False else cell g1 x' y')"
    using seal_one[OF g1(2) xr, of "gh - 1" s t] assms(1) by auto
  obtain g' where g': "sealTopBottom gh s t xs g2 = Inr g'" "shape gw gh g'"
    "\<And>x' y'. cell g' x' y' =
          (if x' \<in> set xs \<and> (y' = 0 \<or> y' = gh - 1) \<and> (x', y') \<noteq> s \<and> (x', y') \<noteq> t
           then Some False else cell g2 x' y')"
    using Cons.IH[OF _ g2(2)] Cons.prems(1) by auto
  have "sealTopBottom gh s t (x # xs) g = Inr g'"
    using g1(1) g2(1) g'(1) by (simp add: Let_def)
  moreover have "cell g' x' y' =
          (if x' \<in> set (x # xs) \<and> (y' = 0 \<or> y' = gh - 1) \<and> (x', y') \<noteq> s \<and> (x', y') \<noteq> t
           then Some False else cell g x' y')" for x' y'
    unfolding g'(3) g2(3) g1(3) by auto
  ultimately show ?case using g'(2) by blast
qed

lemma sealLeftRight_cells:
  assumes "0 < gw" "\<forall>y \<in> set ys. 0 \<le> y \<and> y < gh" "shape gw gh g"
  shows "\<exists>g'. sealLeftRight gw s t ys g = Inr g' \<and> shape gw gh g'
     \<and> (\<forall>x' y'. cell g' x' y' =
          (if y' \<in> set ys \<and> (x' = 0 \<or> x' = gw - 1) \<and> (x', y') \<noteq> s \<and> (x', y') \<noteq> t
           then Some False else cell g x' y'))"
  using assms(2,3)
proof (induction ys arbitrary: g)
  case Nil
  then show ?case by simp
next
  case (Cons y ys)
  have yr: "0 \<le> y" "y < gh" using Cons.prems by auto
  have x0: "(0::int) \<le> 0" "0 < gw" "0 \<le> gw - 1" "gw - 1 < gw" using assms(1) by auto
  obtain g1 where g1: "(if \<not> same (0, y) s \<and> \<not> same (0, y) t then setCell g 0 y False else Some g) = Some g1"
    "shape gw gh g1"
    "\<And>x' y'. cell g1 x' y' = (if x' = 0 \<and> y' = y \<and> (0, y) \<noteq> s \<and> (0, y) \<noteq> t then Some False else cell g x' y')"
    using seal_one[OF Cons.prems(2) x0(1,2) yr, of s t] by auto
  obtain g2 where g2: "(if \<not> same (gw - 1, y) s \<and> \<not> same (gw - 1, y) t then setCell g1 (gw - 1) y False else Some g1) = Some g2"
    "shape gw gh g2"
    "\<And>x' y'. cell g2 x' y' = (if x' = gw - 1 \<and> y' = y \<and> (gw - 1, y) \<noteq> s \<and> (gw - 1, y) \<noteq> t then Some False else cell g1 x' y')"
    using seal_one[OF g1(2) x0(3,4) yr, of s t] by auto
  obtain g' where g': "sealLeftRight gw s t ys g2 = Inr g'" "shape gw gh g'"
    "\<And>x' y'. cell g' x' y' =
          (if y' \<in> set ys \<and> (x' = 0 \<or> x' = gw - 1) \<and> (x', y') \<noteq> s \<and> (x', y') \<noteq> t
           then Some False else cell g2 x' y')"
    using Cons.IH[OF _ g2(2)] Cons.prems(1) by auto
  have "sealLeftRight gw s t (y # ys) g = Inr g'"
    using g1(1) g2(1) g'(1) by (simp add: Let_def)
  moreover have "cell g' x' y' =
          (if y' \<in> set (y # ys) \<and> (x' = 0 \<or> x' = gw - 1) \<and> (x', y') \<noteq> s \<and> (x', y') \<noteq> t
           then Some False else cell g x' y')" for x' y'
    unfolding g'(3) g2(3) g1(3) by auto
  ultimately show ?case using g'(2) by blast
qed

lemma shape_gridOk_rows:
  "shape gw gh g' \<Longrightarrow> length g' = nat gh \<and> list_all (\<lambda>row. length row = nat gw) g'"
  by (auto simp: shape_def list_all_iff)

text \<open>
  Claim C5. On a well-formed grid the sealing step succeeds, keeps the dimensions, and
  leaves every border cell other than start and goal blocked, while start, goal and
  every cell off the border keep the value they had.
\<close>

theorem sealBorder_cells:
  assumes "gridOk grid"
  shows "\<exists>g'. sealBorder grid start goal = Inr g'
      \<and> length g' = length grid
      \<and> list_all (\<lambda>row. length row = length (hd grid)) g'
      \<and> (\<forall>c. cell g' (fst c) (snd c) =
            (if onBorder grid c \<and> c \<noteq> start \<and> c \<noteq> goal then Some False
             else cell grid (fst c) (snd c)))"
proof -
  let ?gw = "int (length (hd grid))" and ?gh = "int (length grid)"
  note sh = gridOk_shape[OF assms] and pos = gridOk_pos[OF assms]
  have at0: "elemAt grid 0 = Some (hd grid)"
    using pos gridOk_hd[OF assms] by (simp add: elemAt_def)
  obtain g1 where g1: "sealTopBottom ?gh start goal (upto 0 (?gw - 1)) grid = Inr g1"
    "shape ?gw ?gh g1"
    "\<And>x' y'. cell g1 x' y' =
          (if x' \<in> set (upto 0 (?gw - 1)) \<and> (y' = 0 \<or> y' = ?gh - 1) \<and> (x', y') \<noteq> start \<and> (x', y') \<noteq> goal
           then Some False else cell grid x' y')"
    using sealTopBottom_cells[OF _ _ sh, of "upto 0 (?gw - 1)" start goal] pos by auto
  obtain g2 where g2: "sealLeftRight ?gw start goal (upto 0 (?gh - 1)) g1 = Inr g2"
    "shape ?gw ?gh g2"
    "\<And>x' y'. cell g2 x' y' =
          (if y' \<in> set (upto 0 (?gh - 1)) \<and> (x' = 0 \<or> x' = ?gw - 1) \<and> (x', y') \<noteq> start \<and> (x', y') \<noteq> goal
           then Some False else cell g1 x' y')"
    using sealLeftRight_cells[OF _ _ g1(2), of "upto 0 (?gh - 1)" start goal] pos by auto
  have r: "sealBorder grid start goal = Inr g2"
    using at0 g1(1) g2(1) by (simp add: sealBorder_def Let_def)
  have out: "cell grid x y = None" if "\<not> (0 \<le> x \<and> x < ?gw \<and> 0 \<le> y \<and> y < ?gh)" for x y
    using shape_cell[OF sh, of x y] that by auto
  have c: "cell g2 (fst c) (snd c) =
            (if onBorder grid c \<and> c \<noteq> start \<and> c \<noteq> goal then Some False
             else cell grid (fst c) (snd c))" for c
  proof (cases c)
    case (Pair x y)
    show ?thesis
      unfolding Pair fst_conv snd_conv g2(3) g1(3) onBorder_def inBounds_def
      using pos by auto
  qed
  have l: "length g2 = length grid \<and> list_all (\<lambda>row. length row = length (hd grid)) g2"
    using shape_gridOk_rows[OF g2(2)] by simp
  from r c l show ?thesis by blast
qed

theorem sealBorder_cells_witness:
  "gridOk grid3 \<and> sealBorder grid3 (0, 0) (2, 1)
      = Inr [[True, False, False], [False, True, True], [False, False, False]]"
proof -
  have ok: "gridOk grid3" by (simp add: gridOk_def grid3_def)
  have "sealBorder grid3 (0, 0) (2, 1)
      = Inr [[True, False, False], [False, True, True], [False, False, False]]"
    by code_simp
  then show ?thesis using ok sealBorder_cells[OF ok, of "(0, 0)" "(2, 1)"] by simp
qed

lemma stepsOk_snoc:
  "stepsOk E (p @ [x]) \<longleftrightarrow> stepsOk E p \<and> (p = [] \<or> E (last p) x)"
  by (induction E p rule: stepsOk.induct) auto

lemma binv_init:
  assumes "B s" "D s = 0" "\<forall>c. B c \<and> c \<noteq> s \<longrightarrow> D c = - 1"
  shows "binv B E s [s] D P"
  unfolding binv_def using assms by auto

lemma binv_push:
  assumes inv: "binv B E s (u # q) D P"
    and EB: "\<forall>a b. E a b \<longrightarrow> B b"
    and e: "E u n" and bn: "B n" and dn: "D n = - 1"
    and D': "\<forall>c. B c \<longrightarrow> D' c = (if c = n then D u + 1 else D c)"
    and P': "\<forall>c. B c \<longrightarrow> P' c = (if c = n then u else P c)"
  shows "binv B E s (u # q @ [n]) D' P'"
proof -
  from inv have os: "\<forall>c \<in> set (u # q). B c \<and> 0 \<le> D c"
    and srt: "sorted (map D (u # q))"
    and lo: "\<forall>c. B c \<longrightarrow> - 1 \<le> D c"
    and hi: "\<forall>c. B c \<longrightarrow> D c \<le> D u + 1"
    and st: "B s" "D s = 0"
    and par: "\<forall>c. B c \<and> D c \<noteq> - 1 \<and> c \<noteq> s
            \<longrightarrow> B (P c) \<and> 0 \<le> D (P c) \<and> D c = D (P c) + 1 \<and> E (P c) c"
    and cl: "\<forall>c n. B c \<and> D c \<noteq> - 1 \<and> c \<notin> set (u # q) \<and> E c n \<longrightarrow> D n \<noteq> - 1 \<and> D n \<le> D c + 1"
    unfolding binv_def by simp_all
  have keep: "D' c = D c" if "B c" "D c \<noteq> - 1" for c
    using that D' dn by auto
  have bu: "B u" "0 \<le> D u" using os by auto
  have u': "D' u = D u" using keep bu by auto
  have n': "D' n = D u + 1" using D' bn by auto
  have same: "map D' (u # q) = map D (u # q)"
    using os keep by (intro map_cong) auto
  have 1: "\<forall>c \<in> set (u # q @ [n]). B c \<and> 0 \<le> D' c"
    using os keep n' bn bu by auto
  have "sorted (map D (u # q) @ [D u + 1])"
    using srt hi os by (subst sorted_append) auto
  moreover have "map D' (u # q @ [n]) = map D' (u # q) @ [D' n]"
    by simp
  then have "map D' (u # q @ [n]) = map D (u # q) @ [D u + 1]"
    unfolding same n' .
  ultimately have 2: "sorted (map D' (u # q @ [n]))"
    by (simp only:)
  have 3: "\<forall>c. B c \<longrightarrow> - 1 \<le> D' c" using D' lo bu by auto
  have 4: "\<forall>c. B c \<longrightarrow> D' c \<le> D' (hd (u # q @ [n])) + 1"
    using D' hi u' by auto
  have 5: "B s" "D' s = 0" using st keep by auto
  have 6: "B (P' c) \<and> 0 \<le> D' (P' c) \<and> D' c = D' (P' c) + 1 \<and> E (P' c) c"
    if "B c" "D' c \<noteq> - 1" "c \<noteq> s" for c
  proof (cases "c = n")
    case True
    then show ?thesis using P' bn bu u' n' e by auto
  next
    case False
    then have dc: "D' c = D c" "P' c = P c" using D' P' that by auto
    then have *: "B (P c) \<and> 0 \<le> D (P c) \<and> D c = D (P c) + 1 \<and> E (P c) c"
      using par that by auto
    then have "D' (P c) = D (P c)" using keep by auto
    then show ?thesis using * dc by simp
  qed
  have 7: "D' m \<noteq> - 1 \<and> D' m \<le> D' c + 1"
    if "B c" "D' c \<noteq> - 1" "c \<notin> set (u # q @ [n])" "E c m" for c m
  proof -
    have cn: "c \<noteq> n" using that by auto
    then have dc: "D' c = D c" using D' that by auto
    then have *: "D m \<noteq> - 1 \<and> D m \<le> D c + 1" using cl that by auto
    then have "m \<noteq> n" using dn by auto
    moreover have "B m" using EB that by blast
    ultimately show ?thesis using D' dc * by auto
  qed
  show ?thesis
    unfolding binv_def using 1 2 3 4 5 6 7 by (intro conjI) blast+
qed


lemma binv_pop:
  assumes inv: "binv B E s (u # q) D P"
    and EB: "\<forall>a b. E a b \<longrightarrow> B b"
    and closed: "\<forall>n. E u n \<longrightarrow> D n \<noteq> - 1"
  shows "binv B E s q D P"
proof -
  from inv have os: "\<forall>c \<in> set (u # q). B c \<and> 0 \<le> D c"
    and srt: "sorted (map D (u # q))"
    and lo: "\<forall>c. B c \<longrightarrow> - 1 \<le> D c"
    and hi: "\<forall>c. B c \<longrightarrow> D c \<le> D u + 1"
    and st: "B s" "D s = 0"
    and par: "\<forall>c. B c \<and> D c \<noteq> - 1 \<and> c \<noteq> s
            \<longrightarrow> B (P c) \<and> 0 \<le> D (P c) \<and> D c = D (P c) + 1 \<and> E (P c) c"
    and cl: "\<forall>c n. B c \<and> D c \<noteq> - 1 \<and> c \<notin> set (u # q) \<and> E c n \<longrightarrow> D n \<noteq> - 1 \<and> D n \<le> D c + 1"
    unfolding binv_def by simp_all
  have 1: "\<forall>c \<in> set q. B c \<and> 0 \<le> D c" using os by auto
  have 2: "sorted (map D q)" using srt by simp
  have 4: "q \<noteq> [] \<longrightarrow> (\<forall>c. B c \<longrightarrow> D c \<le> D (hd q) + 1)"
  proof (intro impI allI)
    fix c assume "q \<noteq> []" "B c"
    then have "D u \<le> D (hd q)" using srt by (cases q) auto
    then show "D c \<le> D (hd q) + 1" using hi \<open>B c\<close> by force
  qed
  have 7: "D m \<noteq> - 1 \<and> D m \<le> D c + 1"
    if "B c" "D c \<noteq> - 1" "c \<notin> set q" "E c m" for c m
  proof (cases "c = u")
    case True
    have "B m" using EB that by blast
    then show ?thesis using closed hi that True by auto
  next
    case False
    then show ?thesis using cl that by auto
  qed
  show ?thesis
    unfolding binv_def using 1 2 lo 4 st par 7 by (intro conjI) blast+
qed

lemma binv_reach:
  assumes inv: "binv B E s os D P"
    and EB: "\<forall>a b. E a b \<longrightarrow> B b"
    and exit: "os = [] \<or> hd os = t"
    and walk: "stepsOk E p" "p \<noteq> []" "hd p = s" "last p = t"
  shows "D t \<noteq> - 1 \<and> D t + 1 \<le> int (length p)"
proof -
  from inv have os: "\<forall>c \<in> set os. B c \<and> 0 \<le> D c"
    and srt: "sorted (map D os)"
    and lo: "\<forall>c. B c \<longrightarrow> - 1 \<le> D c"
    and st: "B s" "D s = 0"
    and cl: "\<forall>c n. B c \<and> D c \<noteq> - 1 \<and> c \<notin> set os \<and> E c n \<longrightarrow> D n \<noteq> - 1 \<and> D n \<le> D c + 1"
    unfolding binv_def by simp_all
  have front: "D (hd os) \<le> D c" if "c \<in> set os" for c
    using srt that by (cases os) auto
  have "p \<noteq> [] \<Longrightarrow> hd p = s \<Longrightarrow> stepsOk E p \<Longrightarrow>
      B (last p) \<and> ((D (last p) \<noteq> - 1 \<and> D (last p) + 1 \<le> int (length p))
        \<or> (os \<noteq> [] \<and> D (hd os) + 1 \<le> int (length p)))"
  proof (induction p rule: rev_induct)
    case Nil
    then show ?case by simp
  next
    case (snoc x p)
    show ?case
    proof (cases "p = []")
      case True
      then show ?thesis using snoc.prems st by simp
    next
      case False
      then have hp: "hd p = s" using snoc.prems by simp
      have sp: "stepsOk E p" and ex: "E (last p) x"
        using snoc.prems False by (simp_all add: stepsOk_snoc)
      have bx: "B x" using EB ex by blast
      from snoc.IH[OF False hp sp]
      have bl: "B (last p)" and
        ih: "(D (last p) \<noteq> - 1 \<and> D (last p) + 1 \<le> int (length p))
              \<or> (os \<noteq> [] \<and> D (hd os) + 1 \<le> int (length p))" by simp_all
      from ih show ?thesis
      proof
        assume a: "D (last p) \<noteq> - 1 \<and> D (last p) + 1 \<le> int (length p)"
        show ?thesis
        proof (cases "last p \<in> set os")
          case True
          then have "os \<noteq> []" "D (hd os) \<le> D (last p)" using front by auto
          then show ?thesis using a bx by auto
        next
          case False
          then have "D x \<noteq> - 1 \<and> D x \<le> D (last p) + 1" using cl bl a ex by blast
          then show ?thesis using a bx by auto
        qed
      next
        assume "os \<noteq> [] \<and> D (hd os) + 1 \<le> int (length p)"
        then show ?thesis using bx by auto
      qed
    qed
  qed
  from this[OF walk(2,3,1)] walk(4)
  have r: "(D t \<noteq> - 1 \<and> D t + 1 \<le> int (length p))
        \<or> (os \<noteq> [] \<and> D (hd os) + 1 \<le> int (length p))" by simp
  then show ?thesis
  proof
    assume "os \<noteq> [] \<and> D (hd os) + 1 \<le> int (length p)"
    moreover from this exit have "hd os = t" "t \<in> set os" by auto
    ultimately show ?thesis using os by auto
  qed simp
qed

lemma idx_range:
  assumes "inb gw gh c"
  shows "0 \<le> idx gw c \<and> idx gw c < gw * gh"
proof -
  obtain x y where c: "c = (x, y)" by (cases c)
  have b: "0 \<le> x" "x < gw" "0 \<le> y" "y < gh" using assms c by (auto simp: inb_def)
  have "0 \<le> y * gw" using b by simp
  moreover have "(y + 1) * gw \<le> gh * gw" using b by (intro mult_right_mono) auto
  then have "y * gw + x < gh * gw" using b by (simp add: algebra_simps)
  ultimately show ?thesis using b c by (simp add: idx_def mult.commute)
qed

lemma idx_inj:
  assumes "inb gw gh c" "inb gw gh c'" "idx gw c = idx gw c'"
  shows "c = c'"
proof -
  obtain x y where c: "c = (x, y)" by (cases c)
  obtain x' y' where c': "c' = (x', y')" by (cases c')
  have b: "0 \<le> x" "x < gw" "0 \<le> x'" "x' < gw"
    using assms c c' by (auto simp: inb_def)
  have e: "y * gw + x = y' * gw + x'" using assms(3) c c' by (simp add: idx_def)
  have "(y * gw + x) div gw = y" "(y' * gw + x') div gw = y'"
    using b by simp_all
  then have "y = y'" using e by simp
  then show ?thesis using e c c' by simp
qed

lemma filter_update_less:
  "i < length xs \<Longrightarrow> P (xs ! i) \<Longrightarrow> \<not> P v \<Longrightarrow>
     Suc (length (filter P (xs[i := v]))) = length (filter P xs)"
proof (induction xs arbitrary: i)
  case Nil
  then show ?case by simp
next
  case (Cons a xs)
  then show ?case by (cases i) auto
qed

lemma edge_inb: "\<forall>a b. edge g gw gh a b \<longrightarrow> inb gw gh b"
  by (simp add: edge_def)

lemma visit_step:
  assumes sh: "shape gw gh g" and ci: "cinv gw gh st"
    and inv: "binv (inb gw gh) (edge g gw gh) s (u # queue st) (Dof gw st) (Pof gw st)"
    and dd: "d \<in> set deltas"
  shows "\<exists>st'. visit g gw gh u d st = Inr st' \<and> cinv gw gh st'
     \<and> binv (inb gw gh) (edge g gw gh) s (u # queue st') (Dof gw st') (Pof gw st')
     \<and> (\<forall>c. inb gw gh c \<longrightarrow> Dof gw st c \<noteq> - 1 \<longrightarrow> Dof gw st' c \<noteq> - 1)
     \<and> 2 * unv st' + length (queue st') \<le> 2 * unv st + length (queue st)
     \<and> (edge g gw gh u (fst u + fst d, snd u + snd d)
           \<longrightarrow> Dof gw st' (fst u + fst d, snd u + snd d) \<noteq> - 1)"
proof -
  define n where "n = (fst u + fst d, snd u + snd d)"
  have nxy: "fst n = fst u + fst d" "snd n = snd u + snd d" by (simp_all add: n_def)
  let ?B = "inb gw gh" and ?E = "edge g gw gh"
  have vd: "visit g gw gh u d st =
     (if fst n < 0 \<or> snd n < 0 \<or> fst n \<ge> gw \<or> snd n \<ge> gh then Inr st
      else
        (case cell g (fst n) (snd n) of
           None \<Rightarrow> Inl OutOfRange
         | Some free \<Rightarrow>
             if \<not> free then Inr st
             else
               (case elemAt (dist st) (idx gw n) of
                  None \<Rightarrow> Inl OutOfRange
                | Some dn \<Rightarrow>
                    if dn \<noteq> - 1 then Inr st
                    else
                      (case elemAt (dist st) (idx gw u) of
                         None \<Rightarrow> Inl OutOfRange
                       | Some du \<Rightarrow>
                           (case elemAt (parent st) (idx gw n) of
                              None \<Rightarrow> Inl OutOfRange
                            | Some _ \<Rightarrow>
                                Inr \<lparr>queue = queue st @ [n],
                                     dist = (dist st)[nat (idx gw n) := du + 1],
                                     parent = (parent st)[nat (idx gw n) := u]\<rparr>)))))"
    unfolding visit_def Let_def n_def fst_conv snd_conv ..
  have goal: "?thesis" if "\<exists>st'. visit g gw gh u d st = Inr st' \<and> cinv gw gh st'
     \<and> binv ?B ?E s (u # queue st') (Dof gw st') (Pof gw st')
     \<and> (\<forall>c. ?B c \<longrightarrow> Dof gw st c \<noteq> - 1 \<longrightarrow> Dof gw st' c \<noteq> - 1)
     \<and> 2 * unv st' + length (queue st') \<le> 2 * unv st + length (queue st)
     \<and> (?E u n \<longrightarrow> Dof gw st' n \<noteq> - 1)"
    using that unfolding n_def by blast
  have stay: "?thesis" if "visit g gw gh u d st = Inr st" "\<not> ?E u n \<or> Dof gw st n \<noteq> - 1"
    using that ci inv by (intro goal) blast
  show ?thesis
  proof (cases "?B n")
    case False
    then have "visit g gw gh u d st = Inr st"
      unfolding vd by (auto simp: inb_def)
    moreover have "\<not> ?E u n" using False by (simp add: edge_def)
    ultimately show ?thesis using stay by blast
  next
    case bn: True
    then have nb: "\<not> (fst n < 0 \<or> snd n < 0 \<or> fst n \<ge> gw \<or> snd n \<ge> gh)"
      by (auto simp: inb_def)
    have cn: "cell g (fst n) (snd n) = Some (g ! nat (snd n) ! nat (fst n))"
      using shape_cell[OF sh, of "fst n" "snd n"] bn by (simp add: inb_def)
    show ?thesis
    proof (cases "g ! nat (snd n) ! nat (fst n)")
      case False
      then have "visit g gw gh u d st = Inr st"
        unfolding vd using nb cn by simp
      moreover have "\<not> ?E u n" using False cn by (simp add: edge_def isFree_def)
      ultimately show ?thesis using stay by blast
    next
      case fr: True
      have ir: "0 \<le> idx gw n" "idx gw n < gw * gh" using idx_range[OF bn] by auto
      then have ilen: "nat (idx gw n) < length (dist st)" "nat (idx gw n) < length (parent st)"
        using ci by (auto simp: cinv_def)
      have an: "elemAt (dist st) (idx gw n) = Some (Dof gw st n)"
        using ir ilen by (simp add: elemAt_def Dof_def)
      show ?thesis
      proof (cases "Dof gw st n = - 1")
        case False
        then have "visit g gw gh u d st = Inr st"
          unfolding vd using nb cn fr an by simp
        then show ?thesis using stay False by blast
      next
        case dn: True
        have bu: "?B u" "0 \<le> Dof gw st u"
          using inv by (auto simp: binv_def)
        have ur: "0 \<le> idx gw u" "idx gw u < gw * gh" using idx_range[OF bu(1)] by auto
        then have au: "elemAt (dist st) (idx gw u) = Some (Dof gw st u)"
          using ci by (simp add: elemAt_def Dof_def cinv_def)
        have ap: "elemAt (parent st) (idx gw n) = Some (Pof gw st n)"
          using ir ilen by (simp add: elemAt_def Pof_def)
        define st' where "st' = \<lparr>queue = queue st @ [n],
                      dist = (dist st)[nat (idx gw n) := Dof gw st u + 1],
                      parent = (parent st)[nat (idx gw n) := u]\<rparr>"
        have v: "visit g gw gh u d st = Inr st'"
          unfolding vd st'_def using nb cn fr an dn au ap by simp
        have ci': "cinv gw gh st'" using ci by (simp add: cinv_def st'_def)
        have ne: "nat (idx gw c) \<noteq> nat (idx gw n)" if "?B c" "c \<noteq> n" for c
        proof -
          have "idx gw c \<noteq> idx gw n" using idx_inj[OF that(1) bn] that(2) by blast
          moreover have "0 \<le> idx gw c" using idx_range[OF that(1)] by simp
          ultimately show ?thesis using ir(1) by (simp add: eq_nat_nat_iff)
        qed
        have D1: "Dof gw st' c = (if c = n then Dof gw st u + 1 else Dof gw st c)" if "?B c" for c
          using ne[OF that] ilen by (cases "c = n") (simp_all add: Dof_def st'_def)
        have P1: "Pof gw st' c = (if c = n then u else Pof gw st c)" if "?B c" for c
          using ne[OF that] ilen by (cases "c = n") (simp_all add: Pof_def st'_def)
        have D': "\<forall>c. ?B c \<longrightarrow> Dof gw st' c = (if c = n then Dof gw st u + 1 else Dof gw st c)"
          using D1 by blast
        have P': "\<forall>c. ?B c \<longrightarrow> Pof gw st' c = (if c = n then u else Pof gw st c)"
          using P1 by blast
        have un: "Suc (unv st') = unv st"
          unfolding unv_def st'_def
          using filter_update_less[of "nat (idx gw n)" "dist st" "\<lambda>v. v = - 1" "Dof gw st u + 1"]
            ilen dn bu by (simp add: Dof_def)
        have me: "2 * unv st' + length (queue st') \<le> 2 * unv st + length (queue st)"
          using un by (simp add: st'_def)
        have mono: "\<forall>c. ?B c \<longrightarrow> Dof gw st c \<noteq> - 1 \<longrightarrow> Dof gw st' c \<noteq> - 1"
          using D1 bu(2) by auto
        have vis: "Dof gw st' n \<noteq> - 1" using D1[OF bn] bu(2) by auto
        have "(fst n - fst u, snd n - snd u) = d" by (simp add: n_def)
        then have E1: "?E u n"
          using bn fr cn dd by (simp add: edge_def isFree_def)
        have "queue st' = queue st @ [n]" by (simp add: st'_def)
        then have inv': "binv ?B ?E s (u # queue st') (Dof gw st') (Pof gw st')"
          using binv_push[OF inv edge_inb E1 bn dn D' P'] by simp
        show ?thesis using v ci' inv' mono me vis by (intro goal) blast
      qed
    qed
  qed
qed


lemma visitAll_steps:
  assumes sh: "shape gw gh g" and ds: "set ds \<subseteq> set deltas"
    and ci: "cinv gw gh st"
    and inv: "binv (inb gw gh) (edge g gw gh) s (u # queue st) (Dof gw st) (Pof gw st)"
  shows "\<exists>st'. visitAll g gw gh u ds st = Inr st' \<and> cinv gw gh st'
     \<and> binv (inb gw gh) (edge g gw gh) s (u # queue st') (Dof gw st') (Pof gw st')
     \<and> (\<forall>c. inb gw gh c \<longrightarrow> Dof gw st c \<noteq> - 1 \<longrightarrow> Dof gw st' c \<noteq> - 1)
     \<and> 2 * unv st' + length (queue st') \<le> 2 * unv st + length (queue st)
     \<and> (\<forall>d \<in> set ds. edge g gw gh u (fst u + fst d, snd u + snd d)
           \<longrightarrow> Dof gw st' (fst u + fst d, snd u + snd d) \<noteq> - 1)"
  using ds ci inv
proof (induction ds arbitrary: st)
  case Nil
  then show ?case by simp
next
  case (Cons d ds)
  have dd: "d \<in> set deltas" and ds: "set ds \<subseteq> set deltas" using Cons.prems(1) by auto
  obtain st1 where s1: "visit g gw gh u d st = Inr st1" "cinv gw gh st1"
    "binv (inb gw gh) (edge g gw gh) s (u # queue st1) (Dof gw st1) (Pof gw st1)"
    "\<forall>c. inb gw gh c \<longrightarrow> Dof gw st c \<noteq> - 1 \<longrightarrow> Dof gw st1 c \<noteq> - 1"
    "2 * unv st1 + length (queue st1) \<le> 2 * unv st + length (queue st)"
    "edge g gw gh u (fst u + fst d, snd u + snd d)
           \<longrightarrow> Dof gw st1 (fst u + fst d, snd u + snd d) \<noteq> - 1"
    using visit_step[OF sh Cons.prems(2,3) dd] by blast
  obtain st2 where s2: "visitAll g gw gh u ds st1 = Inr st2" "cinv gw gh st2"
    "binv (inb gw gh) (edge g gw gh) s (u # queue st2) (Dof gw st2) (Pof gw st2)"
    "\<forall>c. inb gw gh c \<longrightarrow> Dof gw st1 c \<noteq> - 1 \<longrightarrow> Dof gw st2 c \<noteq> - 1"
    "2 * unv st2 + length (queue st2) \<le> 2 * unv st1 + length (queue st1)"
    "\<forall>d \<in> set ds. edge g gw gh u (fst u + fst d, snd u + snd d)
           \<longrightarrow> Dof gw st2 (fst u + fst d, snd u + snd d) \<noteq> - 1"
    using Cons.IH[OF ds s1(2,3)] by blast
  have r: "visitAll g gw gh u (d # ds) st = Inr st2" using s1(1) s2(1) by simp
  have m: "\<forall>c. inb gw gh c \<longrightarrow> Dof gw st c \<noteq> - 1 \<longrightarrow> Dof gw st2 c \<noteq> - 1"
    using s1(4) s2(4) by blast
  have me: "2 * unv st2 + length (queue st2) \<le> 2 * unv st + length (queue st)"
    using s1(5) s2(5) by linarith
  have "edge g gw gh u (fst u + fst d, snd u + snd d)
           \<longrightarrow> Dof gw st2 (fst u + fst d, snd u + snd d) \<noteq> - 1"
    using s1(6) s2(4) by (auto simp: edge_def)
  then have e: "\<forall>d' \<in> set (d # ds). edge g gw gh u (fst u + fst d', snd u + snd d')
           \<longrightarrow> Dof gw st2 (fst u + fst d', snd u + snd d') \<noteq> - 1"
    using s2(6) by simp
  show ?case using r s2(2,3) m me e by blast
qed

lemma edge_delta:
  "edge g gw gh u n \<Longrightarrow> \<exists>d \<in> set deltas. n = (fst u + fst d, snd u + snd d)"
proof -
  assume "edge g gw gh u n"
  then have d: "(fst n - fst u, snd n - snd u) \<in> set deltas" by (simp add: edge_def)
  have "n = (fst u + fst (fst n - fst u, snd n - snd u), snd u + snd (fst n - fst u, snd n - snd u))"
    by (simp add: prod_eq_iff)
  with d show ?thesis by blast
qed

lemma bfsLoop_total:
  assumes sh: "shape gw gh g"
  shows "cinv gw gh st \<Longrightarrow>
     binv (inb gw gh) (edge g gw gh) s (queue st) (Dof gw st) (Pof gw st) \<Longrightarrow>
     \<exists>st' os. bfsLoop g gw gh goal st = Some (Inr st') \<and> cinv gw gh st'
       \<and> binv (inb gw gh) (edge g gw gh) s os (Dof gw st') (Pof gw st')
       \<and> (os = [] \<or> hd os = goal)"
proof (induction "2 * unv st + length (queue st)" arbitrary: st rule: less_induct)
  case less
  show ?case
  proof (cases "queue st")
    case Nil
    then have "bfsLoop g gw gh goal st = Some (Inr st)"
      by (subst bfsLoop.simps) simp
    then show ?thesis using less.prems Nil by metis
  next
    case (Cons u q)
    define st0 where "st0 = st\<lparr>queue := q\<rparr>"
    have f0: "Dof gw st0 = Dof gw st" "Pof gw st0 = Pof gw st" "queue st0 = q" "unv st0 = unv st"
      by (auto simp: st0_def Dof_def Pof_def unv_def fun_eq_iff)
    have c0: "cinv gw gh st0" using less.prems(1) by (simp add: cinv_def st0_def)
    have i0: "binv (inb gw gh) (edge g gw gh) s (u # queue st0) (Dof gw st0) (Pof gw st0)"
      using less.prems(2) Cons f0 by simp
    show ?thesis
    proof (cases "u = goal")
      case True
      then have "bfsLoop g gw gh goal st = Some (Inr st0)"
        using Cons by (subst bfsLoop.simps) (simp add: st0_def)
      moreover have "hd (u # q) = goal" using True by simp
      ultimately show ?thesis using c0 i0 f0 by metis
    next
      case False
      obtain st1 where s1: "visitAll g gw gh u deltas st0 = Inr st1" "cinv gw gh st1"
        "binv (inb gw gh) (edge g gw gh) s (u # queue st1) (Dof gw st1) (Pof gw st1)"
        "2 * unv st1 + length (queue st1) \<le> 2 * unv st0 + length (queue st0)"
        "\<forall>d \<in> set deltas. edge g gw gh u (fst u + fst d, snd u + snd d)
           \<longrightarrow> Dof gw st1 (fst u + fst d, snd u + snd d) \<noteq> - 1"
        using visitAll_steps[OF sh subset_refl c0 i0] by blast
      have "\<forall>n. edge g gw gh u n \<longrightarrow> Dof gw st1 n \<noteq> - 1"
        using s1(5) edge_delta by blast
      then have i1: "binv (inb gw gh) (edge g gw gh) s (queue st1) (Dof gw st1) (Pof gw st1)"
        using binv_pop[OF s1(3) edge_inb] by blast
      have "2 * unv st1 + length (queue st1) < 2 * unv st + length (queue st)"
        using s1(4) f0 Cons by simp
      from less.hyps[OF this s1(2) i1]
      obtain st' os where r: "bfsLoop g gw gh goal st1 = Some (Inr st')" "cinv gw gh st'"
        "binv (inb gw gh) (edge g gw gh) s os (Dof gw st') (Pof gw st')" "os = [] \<or> hd os = goal"
        by blast
      have "bfsLoop g gw gh goal st = bfsLoop g gw gh goal st1"
        using Cons False s1(1) by (subst bfsLoop.simps) (simp add: st0_def)
      then show ?thesis using r by metis
    qed
  qed
qed

lemma inb_not_sentinel: "inb gw gh v \<Longrightarrow> v \<noteq> (- 1, - 1)"
  by (auto simp: inb_def)

lemma walkBack_chain:
  assumes len: "length par = nat (gw * gh)"
    and P: "\<forall>c. inb gw gh c \<longrightarrow> Pf c = par ! nat (idx gw c)"
    and inv: "binv (inb gw gh) E s os D Pf"
  shows "inb gw gh v \<Longrightarrow> D v \<noteq> - 1 \<Longrightarrow>
     \<exists>chain. walkBack gw s par v acc = Some (Inr (acc @ chain))
       \<and> chain \<noteq> [] \<and> hd chain = v \<and> last chain = s \<and> stepsOk E (rev chain)
       \<and> int (length chain) = D v + 1"
proof (induction "nat (D v)" arbitrary: v acc rule: less_induct)
  case less
  from inv have lo: "\<forall>c. inb gw gh c \<longrightarrow> - 1 \<le> D c"
    and st: "D s = 0"
    and par: "\<forall>c. inb gw gh c \<and> D c \<noteq> - 1 \<and> c \<noteq> s
            \<longrightarrow> inb gw gh (Pf c) \<and> 0 \<le> D (Pf c) \<and> D c = D (Pf c) + 1 \<and> E (Pf c) c"
    unfolding binv_def by simp_all
  have ns: "v \<noteq> (- 1, - 1)" using less.prems(1) by (rule inb_not_sentinel)
  show ?case
  proof (cases "v = s")
    case True
    then have "walkBack gw s par v acc = Some (Inr (acc @ [v]))"
      using ns by (subst walkBack.simps) (simp add: Let_def)
    then show ?thesis using True st by auto
  next
    case False
    have p: "inb gw gh (Pf v)" "0 \<le> D (Pf v)" "D v = D (Pf v) + 1" "E (Pf v) v"
      using par less.prems False by blast+
    have ir: "0 \<le> idx gw v" "idx gw v < gw * gh" using idx_range[OF less.prems(1)] by auto
    have "Pf v = par ! nat (idx gw v)" using P less.prems(1) by blast
    then have ap: "elemAt par (idx gw v) = Some (Pf v)"
      using len ir by (simp add: elemAt_def)
    have w: "walkBack gw s par v acc = walkBack gw s par (Pf v) (acc @ [v])"
      using ns False ap by (subst walkBack.simps) (simp add: Let_def)
    have "nat (D (Pf v)) < nat (D v)" using p by simp
    from less.hyps[OF this p(1), of "acc @ [v]"] p(2)
    obtain chain where c: "walkBack gw s par (Pf v) (acc @ [v]) = Some (Inr ((acc @ [v]) @ chain))"
      "chain \<noteq> []" "hd chain = Pf v" "last chain = s" "stepsOk E (rev chain)"
      "int (length chain) = D (Pf v) + 1"
      by auto
    have "last (rev chain) = Pf v" using c(2,3) by (simp add: last_rev)
    then have "stepsOk E (rev (v # chain))"
      using c(5) p(4) by (simp add: stepsOk_snoc)
    moreover have "walkBack gw s par v acc = Some (Inr (acc @ (v # chain)))"
      using w c(1) by simp
    moreover have "int (length (v # chain)) = D v + 1" using c(6) p(3) by simp
    moreover have "last (v # chain) = s" using c(2,4) by simp
    ultimately show ?thesis by (intro exI[of _ "v # chain"]) simp
  qed
qed

lemma inBounds_inb: "inBounds g c = inb (int (length (hd g))) (int (length g)) c"
  by (simp add: inBounds_def inb_def)

lemma bfsPath_loop:
  assumes ok: "gridOk g" and bs: "inBounds g s"
  shows "\<exists>st os. cinv (int (length (hd g))) (int (length g)) st
     \<and> binv (inb (int (length (hd g))) (int (length g)))
          (edge g (int (length (hd g))) (int (length g))) s os
          (Dof (int (length (hd g))) st) (Pof (int (length (hd g))) st)
     \<and> (os = [] \<or> hd os = t)
     \<and> bfsPath g s t =
         (case elemAt (dist st) (idx (int (length (hd g))) t) of
            None \<Rightarrow> Some (Inl OutOfRange)
          | Some dg \<Rightarrow>
              if dg = - 1 then Some (Inr [])
              else (case walkBack (int (length (hd g))) s (parent st) t [] of
                      None \<Rightarrow> None
                    | Some (Inl e) \<Rightarrow> Some (Inl e)
                    | Some (Inr path) \<Rightarrow> Some (Inr (rev path))))"
proof -
  define gw gh where "gw = int (length (hd g))" and "gh = int (length g)"
  let ?B = "inb gw gh" and ?E = "edge g gw gh"
  have sh: "shape gw gh g" using gridOk_shape[OF ok] by (simp add: gw_def gh_def)
  have pos: "0 < gw" "0 < gh" using gridOk_pos[OF ok] by (simp_all add: gw_def gh_def)
  have Bs: "?B s" using bs by (simp add: inBounds_inb gw_def gh_def)
  have sr: "0 \<le> idx gw s" "idx gw s < gw * gh" using idx_range[OF Bs] by auto
  define dist0 where "dist0 = replicate (nat (gw * gh)) (- 1 :: int)"
  define parent0 where "parent0 = replicate (nat (gw * gh)) ((- 1, - 1) :: point)"
  define st0 where "st0 = \<lparr>queue = [s], dist = dist0[nat (idx gw s) := 0], parent = parent0\<rparr>"
  have a0: "elemAt dist0 (idx gw s) = Some (- 1)"
    using sr by (simp add: elemAt_def dist0_def)
  have c0: "cinv gw gh st0" by (simp add: cinv_def st0_def dist0_def parent0_def)
  have D0s: "Dof gw st0 s = 0" using sr by (simp add: Dof_def st0_def dist0_def)
  have D0: "Dof gw st0 c = - 1" if "?B c" "c \<noteq> s" for c
  proof -
    have "idx gw c \<noteq> idx gw s" using idx_inj[OF that(1) Bs] that(2) by blast
    moreover have cr: "0 \<le> idx gw c" "idx gw c < gw * gh" using idx_range[OF that(1)] by auto
    ultimately have "nat (idx gw c) \<noteq> nat (idx gw s)" using sr by (simp add: eq_nat_nat_iff)
    then show ?thesis using cr by (simp add: Dof_def st0_def dist0_def)
  qed
  have i0: "binv ?B ?E s (queue st0) (Dof gw st0) (Pof gw st0)"
    using binv_init[of ?B s "Dof gw st0" ?E "Pof gw st0"] Bs D0s D0 by (simp add: st0_def)
  obtain st os where L: "bfsLoop g gw gh t st0 = Some (Inr st)" "cinv gw gh st"
    "binv ?B ?E s os (Dof gw st) (Pof gw st)" "os = [] \<or> hd os = t"
    using bfsLoop_total[OF sh c0 i0] by blast
  have "bfsPath g s t =
         (case elemAt (dist st) (idx gw t) of
            None \<Rightarrow> Some (Inl OutOfRange)
          | Some dg \<Rightarrow>
              if dg = - 1 then Some (Inr [])
              else (case walkBack gw s (parent st) t [] of
                      None \<Rightarrow> None
                    | Some (Inl e) \<Rightarrow> Some (Inl e)
                    | Some (Inr path) \<Rightarrow> Some (Inr (rev path))))"
    using pos a0 L(1) gridOk_hd[OF ok]
    by (simp add: bfsPath_def Let_def gw_def[symmetric] gh_def[symmetric]
        dist0_def[symmetric] parent0_def[symmetric] st0_def[symmetric])
  then show ?thesis using L(2,3,4) unfolding gw_def gh_def by blast
qed

lemma bfsPath_spec:
  assumes ok: "gridOk g" and bs: "inBounds g s" and bt: "inBounds g t"
  shows "((\<exists>p. walkTo g s t p) \<longrightarrow>
          (\<exists>path. bfsPath g s t = Some (Inr path) \<and> walkTo g s t path
              \<and> (\<forall>p. walkTo g s t p \<longrightarrow> length path \<le> length p)))
       \<and> (\<not> (\<exists>p. walkTo g s t p) \<longrightarrow> bfsPath g s t = Some (Inr []))"
proof -
  define gw gh where "gw = int (length (hd g))" and "gh = int (length g)"
  let ?B = "inb gw gh" and ?E = "edge g gw gh"
  have Bt: "?B t" using bt by (simp add: inBounds_inb gw_def gh_def)
  have tr: "0 \<le> idx gw t" "idx gw t < gw * gh" using idx_range[OF Bt] by auto
  obtain st os where L: "cinv gw gh st"
    "binv ?B ?E s os (Dof gw st) (Pof gw st)" "os = [] \<or> hd os = t"
    and bp: "bfsPath g s t =
         (case elemAt (dist st) (idx gw t) of
            None \<Rightarrow> Some (Inl OutOfRange)
          | Some dg \<Rightarrow>
              if dg = - 1 then Some (Inr [])
              else (case walkBack gw s (parent st) t [] of
                      None \<Rightarrow> None
                    | Some (Inl e) \<Rightarrow> Some (Inl e)
                    | Some (Inr path) \<Rightarrow> Some (Inr (rev path))))"
    using bfsPath_loop[OF ok bs, of t] unfolding gw_def gh_def by blast
  have ag: "elemAt (dist st) (idx gw t) = Some (Dof gw st t)"
    using tr L(1) by (simp add: elemAt_def Dof_def cinv_def)
  have unfold: "bfsPath g s t =
     (if Dof gw st t = - 1 then Some (Inr [])
      else (case walkBack gw s (parent st) t [] of
              None \<Rightarrow> None
            | Some (Inl e) \<Rightarrow> Some (Inl e)
            | Some (Inr path) \<Rightarrow> Some (Inr (rev path))))"
    unfolding bp ag by simp
  have cw: "walkTo g s t p \<longleftrightarrow> p \<noteq> [] \<and> hd p = s \<and> last p = t \<and> stepsOk ?E p" for p
    by (simp add: walkTo_def gw_def gh_def)
  have reach: "Dof gw st t \<noteq> - 1 \<and> Dof gw st t + 1 \<le> int (length p)" if "walkTo g s t p" for p
    using binv_reach[OF L(2) edge_inb L(3), of p] that by (simp add: cw)
  show ?thesis
  proof (cases "Dof gw st t = - 1")
    case True
    then have "\<not> (\<exists>p. walkTo g s t p)" using reach by blast
    moreover have "bfsPath g s t = Some (Inr [])" using unfold True by simp
    ultimately show ?thesis by blast
  next
    case False
    have "\<forall>c. ?B c \<longrightarrow> Pof gw st c = parent st ! nat (idx gw c)" by (simp add: Pof_def)
    moreover have "length (parent st) = nat (gw * gh)" using L(1) by (simp add: cinv_def)
    ultimately obtain chain where ch: "walkBack gw s (parent st) t [] = Some (Inr ([] @ chain))"
      "chain \<noteq> []" "hd chain = t" "last chain = s" "stepsOk ?E (rev chain)"
      "int (length chain) = Dof gw st t + 1"
      using walkBack_chain[OF _ _ L(2) Bt False, of "parent st" "[]"] by blast
    have r: "bfsPath g s t = Some (Inr (rev chain))" using unfold False ch(1) by simp
    have w: "walkTo g s t (rev chain)"
      using ch(2-5) by (simp add: cw hd_rev last_rev)
    have m: "length (rev chain) \<le> length p" if "walkTo g s t p" for p
      using reach[OF that] ch(6) by simp
    show ?thesis using r w m by blast
  qed
qed

lemma bfsPath_start_out_of_range:
  assumes "g \<noteq> []"
    and "\<not> (0 \<le> idx (int (length (g ! 0))) s
             \<and> idx (int (length (g ! 0))) s < int (length (g ! 0)) * int (length g))"
  shows "bfsPath g s t = Some (Inl OutOfRange)"
proof -
  have "elemAt (replicate (nat (int (length (g ! 0)) * int (length g))) (- 1 :: int))
          (idx (int (length (g ! 0))) s) = None"
    using assms(2) by (auto simp: elemAt_def)
  then show ?thesis using assms(1) by (simp add: bfsPath_def Let_def)
qed

lemma bfsPath_goal_out_of_range:
  assumes ok: "gridOk g" and bs: "inBounds g s"
    and "\<not> (0 \<le> idx (int (length (hd g))) t
             \<and> idx (int (length (hd g))) t < int (length (hd g)) * int (length g))"
  shows "bfsPath g s t = Some (Inl OutOfRange)"
proof -
  define gw gh where "gw = int (length (hd g))" and "gh = int (length g)"
  obtain st where L: "cinv gw gh st"
    and bp: "bfsPath g s t =
         (case elemAt (dist st) (idx gw t) of
            None \<Rightarrow> Some (Inl OutOfRange)
          | Some dg \<Rightarrow>
              if dg = - 1 then Some (Inr [])
              else (case walkBack gw s (parent st) t [] of
                      None \<Rightarrow> None
                    | Some (Inl e) \<Rightarrow> Some (Inl e)
                    | Some (Inr path) \<Rightarrow> Some (Inr (rev path))))"
    using bfsPath_loop[OF ok bs, of t] unfolding gw_def gh_def by blast
  have "0 \<le> gw * gh" by (simp add: gw_def gh_def)
  then have "elemAt (dist st) (idx gw t) = None"
    using assms(3) L by (auto simp: elemAt_def cinv_def gw_def gh_def)
  then show ?thesis unfolding bp by simp
qed

lemma deltas_adjacent:
  "(fst v - fst u, snd v - snd u) \<in> set deltas \<longleftrightarrow> fourAdjacent u v"
  unfolding deltas_def fourAdjacent_def by (simp; arith)

lemma edge_iff:
  "edge g (int (length (hd g))) (int (length g)) u v
     \<longleftrightarrow> inBounds g v \<and> isFree g v \<and> fourAdjacent u v"
  by (simp add: edge_def inBounds_inb deltas_adjacent)

lemma stepsOk_edge_iff:
  "stepsOk (edge g (int (length (hd g))) (int (length g))) (c # p)
     \<longleftrightarrow> list_all (\<lambda>c. inBounds g c \<and> isFree g c) p \<and> stepsOk fourAdjacent (c # p)"
proof (induction p arbitrary: c)
  case Nil
  then show ?case by simp
next
  case (Cons a p)
  show ?case using Cons[of a] by (auto simp: edge_iff)
qed

lemma freePath_walkTo: "freePath g s t p \<Longrightarrow> walkTo g s t p"
  by (cases p) (auto simp: freePath_def walkTo_def stepsOk_edge_iff)

lemma walkTo_freePath:
  "walkTo g s t p \<Longrightarrow> inBounds g s \<Longrightarrow> isFree g s \<Longrightarrow> freePath g s t p"
  by (cases p) (auto simp: freePath_def walkTo_def stepsOk_edge_iff)

lemma freePath_ends:
  assumes "freePath g s t p"
  shows "inBounds g s \<and> isFree g s \<and> inBounds g t \<and> isFree g t"
proof -
  have ne: "p \<noteq> []" and h: "hd p = s" and l: "last p = t"
    and all: "\<forall>c \<in> set p. inBounds g c \<and> isFree g c"
    using assms by (simp_all add: freePath_def list_all_iff)
  have "s \<in> set p" "t \<in> set p" using ne h l hd_in_set last_in_set by metis+
  then show ?thesis using all by blast
qed

lemma walkTo_goal_free:
  assumes "walkTo g s t p" "s \<noteq> t"
  shows "isFree g t"
proof -
  have ne: "p \<noteq> []" and h: "hd p = s" and l: "last p = t"
    and st: "stepsOk (edge g (int (length (hd g))) (int (length g))) p"
    using assms(1) by (simp_all add: walkTo_def)
  obtain q where q: "p = q @ [t]" using ne l by (metis append_butlast_last_id)
  have "q \<noteq> []" using q h assms(2) by (cases q) auto
  then have "edge g (int (length (hd g))) (int (length g)) (last q) t"
    using st q by (simp add: stepsOk_snoc)
  then show ?thesis by (simp add: edge_def)
qed

text \<open>
  Claim C1. Whenever some path through free cells of a well-formed grid leads from start
  to goal, \<open>bfsPath\<close> terminates without an out-of-range access and returns a
  non-empty path that begins at start and ends at goal, whose consecutive cells are
  four-adjacent and whose cells are all free, and no path through free cells from start
  to goal is shorter: its length is the shortest-path distance of the four-connected
  free cells.
\<close>

theorem bfsPath_shortest:
  assumes "gridOk grid" and "freePath grid start goal p"
  shows "\<exists>path. bfsPath grid start goal = Some (Inr path)
      \<and> path \<noteq> [] \<and> hd path = start \<and> last path = goal
      \<and> stepsOk fourAdjacent path
      \<and> freePath grid start goal path
      \<and> (\<forall>q. freePath grid start goal q \<longrightarrow> length path \<le> length q)"
proof -
  note e = freePath_ends[OF assms(2)]
  have "\<exists>p. walkTo grid start goal p" using freePath_walkTo[OF assms(2)] by blast
  then obtain path where r: "bfsPath grid start goal = Some (Inr path)"
    and w: "walkTo grid start goal path"
    and m: "\<forall>p. walkTo grid start goal p \<longrightarrow> length path \<le> length p"
    using bfsPath_spec[OF assms(1), of start goal] e by blast
  have f: "freePath grid start goal path" using walkTo_freePath[OF w] e by blast
  then have "path \<noteq> [] \<and> hd path = start \<and> last path = goal \<and> stepsOk fourAdjacent path"
    by (simp add: freePath_def)
  moreover have "\<forall>q. freePath grid start goal q \<longrightarrow> length path \<le> length q"
    using m freePath_walkTo by blast
  ultimately show ?thesis using r f by blast
qed

theorem bfsPath_shortest_witness:
  "gridOk grid4
   \<and> freePath grid4 (1, 3) (2, 0) [(1, 3), (1, 2), (1, 1), (2, 1), (2, 0)]
   \<and> bfsPath grid4 (1, 3) (2, 0) = Some (Inr [(1, 3), (1, 2), (1, 1), (2, 1), (2, 0)])"
proof -
  have ok: "gridOk grid4" by (simp add: gridOk_def grid4_def)
  have fp: "freePath grid4 (1, 3) (2, 0) [(1, 3), (1, 2), (1, 1), (2, 1), (2, 0)]"
    by code_simp
  have "bfsPath grid4 (1, 3) (2, 0) = Some (Inr [(1, 3), (1, 2), (1, 1), (2, 1), (2, 0)])"
    by code_simp
  then show ?thesis using ok fp bfsPath_shortest[OF ok fp] by blast
qed

text \<open>
  Claim C4. When no walk of the search leads from start to goal (every step going to a
  four-adjacent free cell of the grid), the distance of goal stays \<open>-1\<close> and
  \<open>bfsPath\<close> returns the empty path: it terminates, and it does so without an
  out-of-range access and without a partial path. For a free start this is the case
  exactly when no path through free cells leads from start to goal.
\<close>

theorem bfsPath_unreachable:
  assumes "gridOk grid" and "inBounds grid start" and "inBounds grid goal"
  shows "(\<not> (\<exists>p. walkTo grid start goal p) \<longrightarrow> bfsPath grid start goal = Some (Inr []))
    \<and> (isFree grid start \<and> \<not> (\<exists>p. freePath grid start goal p)
          \<longrightarrow> bfsPath grid start goal = Some (Inr []))"
proof -
  have a: "\<not> (\<exists>p. walkTo grid start goal p) \<longrightarrow> bfsPath grid start goal = Some (Inr [])"
    using bfsPath_spec[OF assms] by blast
  have "\<not> (\<exists>p. walkTo grid start goal p)"
    if "isFree grid start" "\<not> (\<exists>p. freePath grid start goal p)"
    using that walkTo_freePath[OF _ assms(2)] by blast
  with a show ?thesis by blast
qed

theorem bfsPath_unreachable_witness:
  "gridOk gridCorner \<and> inBounds gridCorner (0, 0) \<and> inBounds gridCorner (1, 1)
   \<and> isFree gridCorner (0, 0)
   \<and> \<not> (\<exists>p. walkTo gridCorner (0, 0) (1, 1) p)
   \<and> \<not> (\<exists>p. freePath gridCorner (0, 0) (1, 1) p)
   \<and> bfsPath gridCorner (0, 0) (1, 1) = Some (Inr [])"
proof -
  have ok: "gridOk gridCorner" by (simp add: gridOk_def gridCorner_def)
  have b: "inBounds gridCorner (0, 0)" "inBounds gridCorner (1, 1)"
    by (simp_all add: inBounds_def gridCorner_def)
  have f: "isFree gridCorner (0, 0)" "\<not> isFree gridCorner (1, 1)"
    by (simp_all add: isFree_def cell_def elemAt_def gridCorner_def)
  have nw: "\<not> (\<exists>p. walkTo gridCorner (0, 0) (1, 1) p)"
    using walkTo_goal_free[of gridCorner "(0, 0)" "(1, 1)"] f(2) by auto
  then have nf: "\<not> (\<exists>p. freePath gridCorner (0, 0) (1, 1) p)"
    using freePath_walkTo by blast
  show ?thesis using ok b f(1) nw nf bfsPath_unreachable[OF ok b] by blast
qed

text \<open>
  Claim C10. On a well-formed grid, with start and goal inside the grid, \<open>bfsPath\<close>
  terminates with a path (possibly empty): no access to the grid, to \<open>dist\<close> or to
  \<open>parent\<close> is out of range. The function itself checks neither point: a start whose
  index \<open>idx(start)\<close> lies outside \<open>dist\<close> is an out-of-range access at once, and
  so is, after the search, a goal whose index lies outside \<open>dist\<close>. Nor is start
  required to be free: the search from the blocked cell \<open>(0,0)\<close> of the grid
  \<open>[[False, True]]\<close> returns the path \<open>[(0,0), (1,0)]\<close>.
\<close>

theorem bfsPath_accesses_in_range:
  assumes "gridOk grid"
  shows "(inBounds grid start \<and> inBounds grid goal
            \<longrightarrow> (\<exists>path. bfsPath grid start goal = Some (Inr path)))
    \<and> (\<not> (0 \<le> idx (int (length (hd grid))) start
            \<and> idx (int (length (hd grid))) start < int (length (hd grid)) * int (length grid))
            \<longrightarrow> bfsPath grid start goal = Some (Inl OutOfRange))
    \<and> (inBounds grid start
         \<and> \<not> (0 \<le> idx (int (length (hd grid))) goal
            \<and> idx (int (length (hd grid))) goal < int (length (hd grid)) * int (length grid))
            \<longrightarrow> bfsPath grid start goal = Some (Inl OutOfRange))
    \<and> bfsPath [[False, True]] (0, 0) (1, 0) = Some (Inr [(0, 0), (1, 0)])"
proof -
  have d: "bfsPath [[False, True]] (0, 0) (1, 0) = Some (Inr [(0, 0), (1, 0)])"
    by code_simp
  have a: "\<exists>path. bfsPath grid start goal = Some (Inr path)"
    if "inBounds grid start" "inBounds grid goal"
    using bfsPath_spec[OF assms that] by blast
  have ne: "grid \<noteq> []" using gridOk_D[OF assms] by simp
  have b: "bfsPath grid start goal = Some (Inl OutOfRange)"
    if "\<not> (0 \<le> idx (int (length (hd grid))) start
            \<and> idx (int (length (hd grid))) start < int (length (hd grid)) * int (length grid))"
    using bfsPath_start_out_of_range[OF ne, of start goal] that gridOk_hd[OF assms] by simp
  have c: "bfsPath grid start goal = Some (Inl OutOfRange)"
    if "inBounds grid start" "\<not> (0 \<le> idx (int (length (hd grid))) goal
            \<and> idx (int (length (hd grid))) goal < int (length (hd grid)) * int (length grid))"
    using bfsPath_goal_out_of_range[OF assms that] .
  from a b c d show ?thesis by blast
qed

theorem bfsPath_accesses_in_range_witness:
  "gridOk grid3 \<and> inBounds grid3 (0, 0) \<and> inBounds grid3 (2, 2)
   \<and> bfsPath grid3 (0, 0) (2, 2) = Some (Inr [(0, 0), (1, 0), (2, 0), (2, 1), (2, 2)])
   \<and> bfsPath grid3 (- 1, 0) (2, 2) = Some (Inl OutOfRange)
   \<and> bfsPath grid3 (0, 0) (0, 3) = Some (Inl OutOfRange)"
proof -
  have ok: "gridOk grid3" by (simp add: gridOk_def grid3_def)
  have b: "inBounds grid3 (0, 0)" "inBounds grid3 (2, 2)"
    by (simp_all add: inBounds_def grid3_def)
  have "bfsPath grid3 (0, 0) (2, 2) = Some (Inr [(0, 0), (1, 0), (2, 0), (2, 1), (2, 2)])"
    "bfsPath grid3 (- 1, 0) (2, 2) = Some (Inl OutOfRange)"
    "bfsPath grid3 (0, 0) (0, 3) = Some (Inl OutOfRange)"
    by code_simp+
  then show ?thesis using ok b bfsPath_accesses_in_range[OF ok, of "(0, 0)" "(2, 2)"] by blast
qed

text \<open>
  Claim C7 describes a division by \<open>dimension - 1\<close>. The code subtracts one twice:
  \<open>w\<close> is already \<open>width - 1\<close>, and the centre is clamped into \<open>[0, w - 1]\<close> and
  divided by \<open>w - 1 = width - 2\<close>. For a cropped image 10 pixels wide, cell size 3 and
  column 0 the centre 1.5 becomes \<open>1.5 / 8 = 0.1875\<close>, not \<open>1.5 / 9\<close>; mapped back
  by the drawing code, which multiplies by \<open>w = 9\<close>, it lands on pixel 1.6875 and not
  on the centre 1.5. For a cropped image 2 pixels wide the divisor is zero.
\<close>

theorem normalize_divides_by_dimension_minus_two:
  "normAxis 10 3 0 = Some (3 / 16)
   \<and> (3 / 16 :: real) \<noteq> ((0 + 0.5) * 3) / (10 - 1)
   \<and> normalizeCell 10 10 3 (0, 0) = Some (3 / 16, 3 / 16)
   \<and> mapAxis 0 10 (3 / 16) = 27 / 16
   \<and> normAxis 2 3 0 = None"
  by (simp add: normAxis_def normalizeCell_def mapAxis_def qBound_def Let_def)

lemma roundEven_err: "\<bar>of_int (roundEven q) - q\<bar> \<le> 1 / 2"
proof -
  have "of_int \<lfloor>q\<rfloor> \<le> q" "q < of_int \<lfloor>q\<rfloor> + 1" by linarith+
  then show ?thesis by (auto simp: roundEven_def Let_def)
qed

lemma pow2_pos: "0 < pow2 k"
  by (simp add: pow2_def)

lemma pow2_powi: "pow2 k = 2 powi k"
  by (simp add: pow2_def power_int_def field_simps)

lemma pow2_mono: "k \<le> l \<Longrightarrow> pow2 k \<le> pow2 l"
  by (simp add: pow2_powi power_int_increasing)

lemma pow2_add: "pow2 (k + l) = pow2 k * pow2 l"
  by (simp add: pow2_powi power_int_add)

lemma binade_bounds:
  assumes "0 < q"
  shows "pow2 (binade q) \<le> q \<and> q < pow2 (binade q + 1)"
proof -
  obtain a b where ab: "quotient_of q = (a, b)" by (cases "quotient_of q")
  have bpos: "0 < b" using ab quotient_of_denom_pos by blast
  have q: "q = of_int a / of_int b" using ab quotient_of_div by blast
  have apos: "0 < a" using assms q bpos by (simp add: zero_less_divide_iff)
  define la lb where "la = bitlen a" and "lb = bitlen b"
  have ba: "2 ^ nat (la - 1) \<le> a" "a < 2 ^ nat la" and bb: "2 ^ nat (lb - 1) \<le> b" "b < 2 ^ nat lb"
    using bitlen_bounds[OF apos] bitlen_bounds[OF bpos] by (simp_all add: la_def lb_def)
  have l1: "1 \<le> la" "1 \<le> lb"
    using apos bpos by (auto simp: la_def lb_def bitlen_alt_def)
  have p: "(2::rat) powi n = 2 ^ nat n" if "0 \<le> n" for n
    using that by (simp add: power_int_def)
  have A: "of_int a < (2::rat) powi la"
  proof -
    have "(of_int a :: rat) < of_int (2 ^ nat la)" using ba(2) by (simp only: of_int_less_iff)
    then show ?thesis using l1 by (simp add: p)
  qed
  have A': "(2::rat) powi (la - 1) \<le> of_int a"
  proof -
    have "(of_int (2 ^ nat (la - 1)) :: rat) \<le> of_int a" using ba(1) by (simp only: of_int_le_iff)
    then show ?thesis using l1 by (simp add: p)
  qed
  have B: "of_int b < (2::rat) powi lb"
  proof -
    have "(of_int b :: rat) < of_int (2 ^ nat lb)" using bb(2) by (simp only: of_int_less_iff)
    then show ?thesis using l1 by (simp add: p)
  qed
  have B': "(2::rat) powi (lb - 1) \<le> of_int b"
  proof -
    have "(of_int (2 ^ nat (lb - 1)) :: rat) \<le> of_int b" using bb(1) by (simp only: of_int_le_iff)
    then show ?thesis using l1 by (simp add: p)
  qed
  have pp: "0 < (2::rat) powi n" for n by simp
  have "q < 2 powi la / 2 powi (lb - 1)"
    unfolding q using apos A pp[of "lb - 1"] B' by (intro frac_less) simp_all
  also have "\<dots> = 2 powi (la - (lb - 1))"
    by (rule power_int_diff[symmetric]) simp
  also have "la - (lb - 1) = la - lb + 1" by simp
  finally have up: "q < pow2 (la - lb + 1)" by (simp add: pow2_powi)
  have "2 powi (la - 1) / 2 powi lb \<le> q"
    unfolding q using apos A' bpos B by (intro frac_le) simp_all
  moreover have "(2::rat) powi (la - 1) / 2 powi lb = 2 powi (la - 1 - lb)"
    by (rule power_int_diff[symmetric]) simp
  moreover have "la - 1 - lb = la - lb - 1" by simp
  ultimately have lo: "pow2 (la - lb - 1) \<le> q" by (simp add: pow2_powi)
  have bd: "binade q = (if pow2 (la - lb) \<le> q then la - lb else la - lb - 1)"
    by (simp add: binade_def ab la_def lb_def Let_def)
  show ?thesis
  proof (cases "pow2 (la - lb) \<le> q")
    case True
    then show ?thesis using up bd by simp
  next
    case False
    then show ?thesis using lo bd by simp
  qed
qed

lemma binade_le:
  assumes "0 < q" "q < pow2 n"
  shows "binade q < n"
proof (rule ccontr)
  assume "\<not> binade q < n"
  then have "pow2 n \<le> pow2 (binade q)" by (intro pow2_mono) simp
  then show False using binade_bounds[OF assms(1)] assms(2) by linarith
qed

lemma toDouble_err:
  assumes "0 < q" "q < pow2 n"
  shows "\<bar>toDouble q - q\<bar> \<le> pow2 (n - 54)"
proof -
  define u where "u = pow2 (binade q - 52)"
  have upos: "0 < u" by (simp add: u_def pow2_pos)
  have "binade q - 52 \<le> n - 53" using binade_le[OF assms] by simp
  then have ule: "u \<le> pow2 (n - 53)" unfolding u_def by (rule pow2_mono)
  have td: "toDouble q = of_int (roundEven (q / u)) * u"
    using assms(1) by (simp add: toDouble_def u_def Let_def)
  have "toDouble q - q = (of_int (roundEven (q / u)) - q / u) * u"
    using upos by (simp add: td field_simps)
  then have "\<bar>toDouble q - q\<bar> = \<bar>of_int (roundEven (q / u)) - q / u\<bar> * u"
    using upos by (simp add: abs_mult)
  also have "\<dots> \<le> 1 / 2 * u"
    using roundEven_err[of "q / u"] upos by (intro mult_right_mono) simp_all
  also have "\<dots> \<le> 1 / 2 * pow2 (n - 53)" using ule by simp
  also have "\<dots> = pow2 (n - 54)"
    using pow2_add[of "n - 54" 1] by (simp add: pow2_def)
  finally show ?thesis .
qed

lemma lit07_value: "lit07 = 3152519739159347 / 4503599627370496"
  unfolding lit07_def by code_simp

lemma ratio_test:
  assumes "0 \<le> w" "w \<le> t" "0 < t" "t < 2 ^ 31"
  shows "lit07 < toDouble (of_int w / of_int t) \<longleftrightarrow> 7 * t < 10 * w"
proof -
  define x :: rat where "x = of_int w / of_int t"
  have tpos: "(0::rat) < of_int t" using assms(3) by simp
  have eps: "(1::rat) / (10 * of_int t) > 1 / 2 ^ 35"
  proof -
    have "10 * t < 2 ^ 35" using assms(4) by simp
    then have "(of_int (10 * t) :: rat) < of_int (2 ^ 35)" by (simp only: of_int_less_iff)
    then have "(10 * of_int t :: rat) < 2 ^ 35" by simp
    then show ?thesis using tpos by (intro divide_strict_left_mono) simp_all
  qed
  have diff: "x - 7 / 10 = of_int (10 * w - 7 * t) / (10 * of_int t)"
    using tpos by (simp add: x_def field_simps)
  show ?thesis
  proof (cases "w = 0")
    case True
    then show ?thesis using assms(3) by (simp add: toDouble_def lit07_value)
  next
    case False
    then have xpos: "0 < x" using assms(1) tpos by (simp add: x_def)
    have "x \<le> 1" using assms(2) tpos by (simp add: x_def)
    then have "x < pow2 1" by (simp add: pow2_def)
    from toDouble_err[OF xpos this]
    have err: "\<bar>toDouble x - x\<bar> \<le> 1 / 2 ^ 53" by (simp add: pow2_def)
    define e35 e53 :: rat where "e35 = 1 / 2 ^ 35" and "e53 = 1 / 2 ^ 53"
    have small: "2 * e53 < e35" "lit07 < 7 / 10" "7 / 10 - e53 < lit07"
      by (simp_all add: e35_def e53_def lit07_value)
    have lo: "x - e53 \<le> toDouble x" and hi: "toDouble x \<le> x + e53"
      using err unfolding e53_def by linarith+
    consider (gt) "7 * t < 10 * w" | (eq) "7 * t = 10 * w" | (lt) "10 * w < 7 * t"
      by linarith
    then show ?thesis
    proof cases
      case gt
      then have "1 \<le> 10 * w - 7 * t" by simp
      then have "(1::rat) \<le> of_int (10 * w - 7 * t)" by (simp only: of_int_1_le_iff)
      then have "1 / (10 * of_int t) \<le> x - 7 / 10"
        unfolding diff using tpos by (intro divide_right_mono) simp_all
      then have "7 / 10 + e35 < x" using eps unfolding e35_def by linarith
      then have "lit07 < toDouble x" using lo small by linarith
      then show ?thesis using gt by (simp add: x_def)
    next
      case eq
      then have "of_int (10 * w - 7 * t) = (0::rat)" by simp
      then have "x = 7 / 10" using diff by simp
      then have "toDouble x = lit07" unfolding lit07_def by (rule arg_cong)
      then show ?thesis using eq by (simp add: x_def)
    next
      case lt
      then have "10 * w - 7 * t \<le> - 1" by simp
      then have "of_int (10 * w - 7 * t) \<le> (- 1::rat)"
        by (metis of_int_le_iff of_int_minus of_int_1)
      then have "x - 7 / 10 \<le> - 1 / (10 * of_int t)"
        unfolding diff using tpos by (intro divide_right_mono) simp_all
      then have "x < 7 / 10 - e35" using eps unfolding e35_def by linarith
      then have "toDouble x < lit07" using hi small by linarith
      then show ?thesis using lt by (simp add: x_def)
    qed
  qed
qed

lemma countRow_eq:
  "countRow maze y xs (w, t)
     = (w + int (length (filter (\<lambda>x. isWhite maze x y) xs)), t + int (length xs))"
  by (induction xs arbitrary: w t) auto

lemma countCell_eq:
  "countCell maze xs ys (w, t)
     = (w + int (length (filter (\<lambda>p. isWhite maze (fst p) (snd p))
                        (concat (map (\<lambda>y. map (\<lambda>x. (x, y)) xs) ys)))),
        t + int (length (concat (map (\<lambda>y. map (\<lambda>x. (x, y)) xs) ys))))"
proof (induction ys arbitrary: w t)
  case Nil
  then show ?case by simp
next
  case (Cons y ys)
  have "filter (\<lambda>p. isWhite maze (fst p) (snd p)) (map (\<lambda>x. (x, y)) xs)
      = map (\<lambda>x. (x, y)) (filter (\<lambda>x. isWhite maze x y) xs)"
    by (induction xs) auto
  then have "length (filter (\<lambda>p. isWhite maze (fst p) (snd p)) (map (\<lambda>x. (x, y)) xs))
      = length (filter (\<lambda>x. isWhite maze x y) xs)" by simp
  then show ?case using Cons[of "w + int (length (filter (\<lambda>x. isWhite maze x y) xs))" "t + int (length xs)"]
    by (simp add: countRow_eq)
qed

lemma fillRow_eq:
  assumes "\<forall>gx \<in> set gxs. 0 \<le> gx \<and> gx < int (length row)"
  shows "\<exists>row'. fillRow maze cellSize gy gxs row = Some row' \<and> length row' = length row
     \<and> (\<forall>i < length row. row' ! i
           = (if int i \<in> set gxs then classifyCell maze cellSize (int i) gy else row ! i))"
  using assms
proof (induction gxs arbitrary: row)
  case Nil
  then show ?case by simp
next
  case (Cons gx gxs)
  let ?row1 = "row[nat gx := classifyCell maze cellSize gx gy]"
  have r: "0 \<le> gx" "gx < int (length row)" using Cons.prems by auto
  have "\<forall>g \<in> set gxs. 0 \<le> g \<and> g < int (length ?row1)" using Cons.prems by simp
  from Cons.IH[OF this] obtain row' where
    a: "fillRow maze cellSize gy gxs ?row1 = Some row'" "length row' = length ?row1"
    and b: "\<forall>i < length ?row1. row' ! i
           = (if int i \<in> set gxs then classifyCell maze cellSize (int i) gy else ?row1 ! i)"
    by blast
  have "row' ! i = (if int i \<in> set (gx # gxs) then classifyCell maze cellSize (int i) gy else row ! i)"
    if "i < length row" for i
  proof (cases "int i = gx")
    case True
    then have "nat gx = i" by simp
    then show ?thesis using b that True by (simp add: nth_list_update)
  next
    case False
    then have "nat gx \<noteq> i" using r by linarith
    then show ?thesis using b that False by (simp add: nth_list_update)
  qed
  then show ?case using a r by simp
qed

lemma length_upto0: "0 \<le> n \<Longrightarrow> length (upto 0 (n - 1)) = nat n"
  by simp

lemma nth_upto0: "i < nat n \<Longrightarrow> upto 0 (n - 1) ! i = int i"
  by (simp add: nth_upto)

lemma fillRow_full:
  assumes "0 \<le> gw" "length row = nat gw"
  shows "fillRow maze cellSize gy (upto 0 (gw - 1)) row
     = Some (map (\<lambda>gx. classifyCell maze cellSize gx gy) (upto 0 (gw - 1)))"
proof -
  have "\<forall>gx \<in> set (upto 0 (gw - 1)). 0 \<le> gx \<and> gx < int (length row)"
    using assms by auto
  from fillRow_eq[OF this, of maze cellSize gy] obtain row' where
    a: "fillRow maze cellSize gy (upto 0 (gw - 1)) row = Some row'" "length row' = length row"
    and b: "\<forall>i < length row. row' ! i
           = (if int i \<in> set (upto 0 (gw - 1)) then classifyCell maze cellSize (int i) gy else row ! i)"
    by blast
  have "row' = map (\<lambda>gx. classifyCell maze cellSize gx gy) (upto 0 (gw - 1))"
  proof (rule nth_equalityI)
    show "length row' = length (map (\<lambda>gx. classifyCell maze cellSize gx gy) (upto 0 (gw - 1)))"
      using a(2) assms by simp
  next
    fix i assume "i < length row'"
    then have i: "i < nat gw" using a(2) assms by simp
    then have "int i \<in> set (upto 0 (gw - 1))" by auto
    then have "row' ! i = classifyCell maze cellSize (int i) gy" using b i assms by simp
    then show "row' ! i = map (\<lambda>gx. classifyCell maze cellSize gx gy) (upto 0 (gw - 1)) ! i"
      using i assms by (simp add: nth_upto)
  qed
  then show ?thesis using a(1) by simp
qed

lemma length_resizeTo: "length (resizeTo n d xs) = n"
  by (simp add: resizeTo_def)

lemma fillRows_eq:
  assumes "0 \<le> gw" "\<forall>gy \<in> set gys. 0 \<le> gy \<and> gy < int (length grid)"
  shows "\<exists>g. fillRows maze cellSize gw gys grid = Some g \<and> length g = length grid
     \<and> (\<forall>j < length grid. g ! j
           = (if int j \<in> set gys
              then map (\<lambda>gx. classifyCell maze cellSize gx (int j)) (upto 0 (gw - 1))
              else grid ! j))"
  using assms(2)
proof (induction gys arbitrary: grid)
  case Nil
  then show ?case by simp
next
  case (Cons gy gys)
  let ?row = "map (\<lambda>gx. classifyCell maze cellSize gx gy) (upto 0 (gw - 1))"
  let ?g1 = "grid[nat gy := ?row]"
  have r: "0 \<le> gy" "gy < int (length grid)" using Cons.prems by auto
  have fr: "fillRow maze cellSize gy (upto 0 (gw - 1)) (resizeTo (nat gw) False (grid ! nat gy))
      = Some ?row"
    by (rule fillRow_full[OF assms(1)]) (simp add: length_resizeTo)
  have "\<forall>g \<in> set gys. 0 \<le> g \<and> g < int (length ?g1)" using Cons.prems by simp
  from Cons.IH[OF this] obtain g where
    a: "fillRows maze cellSize gw gys ?g1 = Some g" "length g = length ?g1"
    and b: "\<forall>j < length ?g1. g ! j
           = (if int j \<in> set gys
              then map (\<lambda>gx. classifyCell maze cellSize gx (int j)) (upto 0 (gw - 1))
              else ?g1 ! j)"
    by blast
  have "g ! j = (if int j \<in> set (gy # gys)
              then map (\<lambda>gx. classifyCell maze cellSize gx (int j)) (upto 0 (gw - 1))
              else grid ! j)" if "j < length grid" for j
  proof (cases "int j = gy")
    case True
    then have "nat gy = j" by simp
    then show ?thesis using b that True by (auto simp: nth_list_update)
  next
    case False
    then have "nat gy \<noteq> j" using r by linarith
    then show ?thesis using b that False by (simp add: nth_list_update)
  qed
  moreover have "fillRows maze cellSize gw (gy # gys) grid = Some g"
    using r fr a(1) by simp
  ultimately show ?case using a(2) by simp
qed

lemma fillRows_full:
  assumes "0 \<le> gw" "0 \<le> gh" "length grid = nat gh"
  shows "fillRows maze cellSize gw (upto 0 (gh - 1)) grid
     = Some (map (\<lambda>gy. map (\<lambda>gx. classifyCell maze cellSize gx gy) (upto 0 (gw - 1)))
               (upto 0 (gh - 1)))"
proof -
  have "\<forall>gy \<in> set (upto 0 (gh - 1)). 0 \<le> gy \<and> gy < int (length grid)"
    using assms by auto
  from fillRows_eq[OF assms(1) this, of maze cellSize] obtain g where
    a: "fillRows maze cellSize gw (upto 0 (gh - 1)) grid = Some g" "length g = length grid"
    and b: "\<forall>j < length grid. g ! j
           = (if int j \<in> set (upto 0 (gh - 1))
              then map (\<lambda>gx. classifyCell maze cellSize gx (int j)) (upto 0 (gw - 1))
              else grid ! j)"
    by blast
  have "g = map (\<lambda>gy. map (\<lambda>gx. classifyCell maze cellSize gx gy) (upto 0 (gw - 1)))
               (upto 0 (gh - 1))"
  proof (rule nth_equalityI)
    show "length g = length (map (\<lambda>gy. map (\<lambda>gx. classifyCell maze cellSize gx gy)
                 (upto 0 (gw - 1))) (upto 0 (gh - 1)))"
      using a(2) assms by simp
  next
    fix j assume "j < length g"
    then have j: "j < nat gh" using a(2) assms by simp
    then have "int j \<in> set (upto 0 (gh - 1))" by auto
    then have "g ! j = map (\<lambda>gx. classifyCell maze cellSize gx (int j)) (upto 0 (gw - 1))"
      using b j assms by simp
    then show "g ! j = map (\<lambda>gy. map (\<lambda>gx. classifyCell maze cellSize gx gy)
                 (upto 0 (gw - 1))) (upto 0 (gh - 1)) ! j"
      using j assms by (simp add: nth_upto)
  qed
  then show ?thesis using a(1) by simp
qed

lemma truncDiv_pos: "0 \<le> a \<Longrightarrow> 0 < b \<Longrightarrow> truncDiv a b = a div b"
  by (cases "a = 0") (simp_all add: truncDiv_def)

lemma neg_div_ceil:
  assumes "0 < (b::int)"
  shows "- (- a div b) = (a + b - 1) div b"
proof -
  define q r where "q = a div b" and "r = a mod b"
  have a: "a = b * q + r" and r: "0 \<le> r" "r < b"
    using assms by (simp_all add: q_def r_def)
  show ?thesis
  proof (cases "r = 0")
    case True
    have "- a div b = - q" by (rule int_div_pos_eq[of _ _ _ 0]) (use a True assms in simp_all)
    moreover have "(a + b - 1) div b = q"
      by (rule int_div_pos_eq[of _ _ _ "b - 1"]) (use a True assms in simp_all)
    ultimately show ?thesis by simp
  next
    case False
    have "- a div b = - q - 1"
      by (rule int_div_pos_eq[of _ _ _ "b - r"]) (use a False r in \<open>simp_all add: algebra_simps\<close>)
    moreover have "(a + b - 1) div b = q + 1"
      by (rule int_div_pos_eq[of _ _ _ "r - 1"]) (use a False r in \<open>simp_all add: algebra_simps\<close>)
    ultimately show ?thesis by simp
  qed
qed

lemma ceil_div:
  assumes "0 \<le> a" "0 < (b::int)"
  shows "(a + b - 1) div b = \<lceil>(of_int a :: rat) / of_int b\<rceil>"
proof -
  have "\<lceil>(of_int a :: rat) / of_int b\<rceil> = - (- a div b)"
    by (simp add: ceiling_divide_eq_div)
  moreover have "- (- a div b) = (a + b - 1) div b"
    by (rule neg_div_ceil[OF assms(2)])
  ultimately show ?thesis by simp
qed


lemma imageOk_D:
  "imageOk maze cellSize \<Longrightarrow>
     1 \<le> cellSize \<and> 0 \<le> width maze \<and> 0 \<le> height maze
     \<and> width maze * height maze < 2 ^ 31"
  unfolding imageOk_def by blast

lemma buildGrid_eq:
  assumes "1 \<le> cellSize" "0 \<le> width maze" "0 \<le> height maze"
  shows "buildGrid maze cellSize grid
     = Some (map (\<lambda>gy. map (\<lambda>gx. classifyCell maze cellSize gx gy)
                         (upto 0 ((width maze + cellSize - 1) div cellSize - 1)))
               (upto 0 ((height maze + cellSize - 1) div cellSize - 1)))"
proof -
  define gw gh where "gw = (width maze + cellSize - 1) div cellSize"
    and "gh = (height maze + cellSize - 1) div cellSize"
  have t: "truncDiv (width maze + cellSize - 1) cellSize = gw"
    "truncDiv (height maze + cellSize - 1) cellSize = gh"
    using assms by (simp_all add: truncDiv_pos gw_def gh_def)
  have nn: "0 \<le> gw" "0 \<le> gh"
    using assms by (simp_all add: gw_def gh_def pos_imp_zdiv_nonneg_iff)
  have "fillRows maze cellSize gw (upto 0 (gh - 1)) (resizeTo (nat gh) [] grid)
     = Some (map (\<lambda>gy. map (\<lambda>gx. classifyCell maze cellSize gx gy) (upto 0 (gw - 1)))
               (upto 0 (gh - 1)))"
    by (rule fillRows_full[OF nn]) (simp add: length_resizeTo)
  then show ?thesis
    using assms(1) unfolding buildGrid_def t Let_def gw_def gh_def by simp
qed

lemma cell_inside:
  assumes "1 \<le> cellSize" "0 \<le> (w::int)" "gx < (w + cellSize - 1) div cellSize"
  shows "gx * cellSize < w"
proof -
  have "(w + cellSize - 1) div cellSize * cellSize + (w + cellSize - 1) mod cellSize
      = w + cellSize - 1" by simp
  moreover have "0 \<le> (w + cellSize - 1) mod cellSize" using assms(1) by simp
  ultimately have "(w + cellSize - 1) div cellSize * cellSize \<le> w + cellSize - 1"
    by linarith
  moreover have "(gx + 1) * cellSize \<le> (w + cellSize - 1) div cellSize * cellSize"
    using assms(1,3) by (intro mult_right_mono) simp_all
  ultimately show ?thesis by (simp add: algebra_simps)
qed

lemma length_concat_rows:
  "length (concat (map (\<lambda>y. map (\<lambda>x. (x, y)) xs) ys)) = length ys * length xs"
  by (induction ys) simp_all

lemma distinct_concat_rows:
  "distinct xs \<Longrightarrow> distinct ys \<Longrightarrow> distinct (concat (map (\<lambda>y. map (\<lambda>x. (x, y)) xs) ys))"
  by (induction ys) (auto simp: distinct_map inj_on_def)

lemma cellPixels_set:
  "set (cellPixels maze cellSize gx gy)
     = {(x, y). gx * cellSize \<le> x \<and> x < gx * cellSize + cellSize \<and> x < width maze
              \<and> gy * cellSize \<le> y \<and> y < gy * cellSize + cellSize \<and> y < height maze}"
  unfolding cellPixels_def by auto

lemma cellPixels_distinct: "distinct (cellPixels maze cellSize gx gy)"
  unfolding cellPixels_def by (intro distinct_concat_rows) simp_all

lemma cellPixels_length:
  assumes "1 \<le> cellSize" "0 \<le> gx" "gx * cellSize < width maze"
    "0 \<le> gy" "gy * cellSize < height maze"
  shows "0 < length (cellPixels maze cellSize gx gy)
     \<and> int (length (cellPixels maze cellSize gx gy)) \<le> width maze * height maze"
proof -
  define nx ny where "nx = min (gx * cellSize + cellSize) (width maze) - gx * cellSize"
    and "ny = min (gy * cellSize + cellSize) (height maze) - gy * cellSize"
  have x0: "0 \<le> gx * cellSize" "0 \<le> gy * cellSize" using assms by simp_all
  have nx: "1 \<le> nx" "nx \<le> width maze" and ny: "1 \<le> ny" "ny \<le> height maze"
    using assms(1,3,5) x0 unfolding nx_def ny_def by linarith+
  have lx: "length (upto (gx * cellSize) (min (gx * cellSize + cellSize) (width maze) - 1))
      = nat nx" by (simp add: nx_def)
  have ly: "length (upto (gy * cellSize) (min (gy * cellSize + cellSize) (height maze) - 1))
      = nat ny" by (simp add: ny_def)
  have "int (nat ny * nat nx) = ny * nx" using nx(1) ny(1) by simp
  then have l: "int (length (cellPixels maze cellSize gx gy)) = ny * nx"
    unfolding cellPixels_def length_concat_rows lx ly .
  have "1 * 1 \<le> ny * nx" using nx ny by (intro mult_mono) simp_all
  moreover have "ny * nx \<le> height maze * width maze" using nx ny by (intro mult_mono) simp_all
  ultimately have "1 \<le> int (length (cellPixels maze cellSize gx gy))"
    "int (length (cellPixels maze cellSize gx gy)) \<le> width maze * height maze"
    unfolding l by (simp_all add: mult.commute)
  then show ?thesis by linarith
qed

lemma classifyCell_fraction:
  assumes "1 \<le> cellSize" "0 \<le> gx" "gx * cellSize < width maze"
    "0 \<le> gy" "gy * cellSize < height maze" "width maze * height maze < 2 ^ 31"
  shows "classifyCell maze cellSize gx gy \<longleftrightarrow> 7 / 10 < whiteFraction maze cellSize gx gy"
proof -
  define ps where "ps = cellPixels maze cellSize gx gy"
  define w t where "w = int (length (filter (\<lambda>p. isWhite maze (fst p) (snd p)) ps))"
    and "t = int (length ps)"
  have len: "0 < t" "t < 2 ^ 31"
    using cellPixels_length[OF assms(1-5)] assms(6) by (simp_all add: t_def ps_def)
  have wt: "0 \<le> w" "w \<le> t" by (simp_all add: w_def t_def)
  have cc: "countCell maze (upto (gx * cellSize) (min (gx * cellSize + cellSize) (width maze) - 1))
      (upto (gy * cellSize) (min (gy * cellSize + cellSize) (height maze) - 1)) (0, 0) = (w, t)"
    unfolding countCell_eq w_def t_def ps_def cellPixels_def by simp
  have "classifyCell maze cellSize gx gy \<longleftrightarrow> lit07 < toDouble (of_int w / of_int t)"
    unfolding classifyCell_def Let_def cc using len by simp
  also have "\<dots> \<longleftrightarrow> 7 * t < 10 * w" by (rule ratio_test[OF wt len])
  also have "\<dots> \<longleftrightarrow> (7 / 10 :: rat) < of_int w / of_int t"
  proof -
    have "(7 / 10 :: rat) < of_int w / of_int t \<longleftrightarrow> (7 :: rat) * of_int t < 10 * of_int w"
      using len(1) by (simp add: field_simps)
    also have "\<dots> \<longleftrightarrow> (of_int (7 * t) :: rat) < of_int (10 * w)" by simp
    also have "\<dots> \<longleftrightarrow> 7 * t < 10 * w" by (simp only: of_int_less_iff)
    finally show ?thesis by simp
  qed
  also have "of_int w / of_int t = whiteFraction maze cellSize gx gy"
    by (simp add: whiteFraction_def w_def t_def ps_def)
  finally show ?thesis .
qed

lemma channel_range: "0 \<le> uint ((w :: 32 word) AND 0xff) \<and> uint (w AND 0xff) \<le> 255"
proof -
  have m: "(0xff :: 32 word) = mask 8" by (simp add: mask_eq_exp_minus_1)
  have "uint (w AND 0xff) = take_bit 8 (uint w)"
    unfolding m by (simp add: take_bit_eq_mask[symmetric] unsigned_take_bit_eq)
  moreover have "take_bit 8 (uint w) < 2 ^ 8" by (rule take_bit_int_less_exp)
  moreover have "0 \<le> take_bit 8 (uint w)" by simp
  ultimately show ?thesis by simp
qed

lemma toDouble_nonneg: "0 \<le> q \<Longrightarrow> 0 \<le> toDouble q"
proof (cases "q = 0")
  case True
  then show ?thesis by (simp add: toDouble_def)
next
  case False
  assume "0 \<le> q"
  define u where "u = pow2 (binade \<bar>q\<bar> - 52)"
  have upos: "0 < u" by (simp add: u_def pow2_pos)
  then have "0 \<le> q / u" using \<open>0 \<le> q\<close> by simp
  then have "0 \<le> \<lfloor>q / u\<rfloor>" by simp
  then have "0 \<le> roundEven (q / u)" by (auto simp: roundEven_def Let_def)
  then show ?thesis using False upos by (simp add: toDouble_def u_def[symmetric] Let_def)
qed

lemma toDouble_err0:
  assumes "0 \<le> q" "q < pow2 n"
  shows "\<bar>toDouble q - q\<bar> \<le> pow2 (n - 54)"
proof (cases "q = 0")
  case True
  then show ?thesis using pow2_pos[of "n - 54"] by (simp add: toDouble_def)
next
  case False
  then show ?thesis using toDouble_err[of q n] assms by simp
qed

lemma literal_values:
  "toDouble (2126 / 10000) = 1914930561557935 / 9007199254740992"
  "toDouble (7152 / 10000) = 6441948906990757 / 9007199254740992"
  "toDouble (722 / 10000) = 5202558289538397 / 72057594037927936"
  by code_simp+

lemma double_luminance_close:
  fixes r g b :: rat
  assumes r: "0 \<le> r" "r \<le> 255" and g: "0 \<le> g" "g \<le> 255" and b: "0 \<le> b" "b \<le> 255"
  defines "d \<equiv> toDouble (toDouble (toDouble (toDouble (2126 / 10000) * r)
                                  + toDouble (toDouble (7152 / 10000) * g))
                        + toDouble (toDouble (722 / 10000) * b))"
  shows "0 \<le> d \<and> \<bar>d - (2126 / 10000 * r + 7152 / 10000 * g + 722 / 10000 * b)\<bar> < 1 / 100000"
proof -
  define e :: rat where "e = pow2 (8 - 54)"
  have e: "0 < e" "e < 1 / 10000000" by (simp_all add: e_def pow2_def)
  have p8: "pow2 8 = 256" by (simp add: pow2_def)
  define p1 p2 p3 where "p1 = toDouble (1914930561557935 / 9007199254740992 * r)"
    and "p2 = toDouble (6441948906990757 / 9007199254740992 * g)"
    and "p3 = toDouble (5202558289538397 / 72057594037927936 * b)"
  define s1 where "s1 = toDouble (p1 + p2)"
  have dd: "d = toDouble (s1 + p3)"
    unfolding d_def literal_values s1_def p1_def p2_def p3_def ..
  have e1: "\<bar>p1 - 1914930561557935 / 9007199254740992 * r\<bar> \<le> e" and n1: "0 \<le> p1"
    unfolding p1_def e_def using r by (intro toDouble_err0 toDouble_nonneg; simp add: p8)+
  have e2: "\<bar>p2 - 6441948906990757 / 9007199254740992 * g\<bar> \<le> e" and n2: "0 \<le> p2"
    unfolding p2_def e_def using g by (intro toDouble_err0 toDouble_nonneg; simp add: p8)+
  have e3: "\<bar>p3 - 5202558289538397 / 72057594037927936 * b\<bar> \<le> e" and n3: "0 \<le> p3"
    unfolding p3_def e_def using b by (intro toDouble_err0 toDouble_nonneg; simp add: p8)+
  have "p1 + p2 < 256" using e1 e2 r g e by linarith
  then have e4: "\<bar>s1 - (p1 + p2)\<bar> \<le> e" and n4: "0 \<le> s1"
    unfolding s1_def e_def using n1 n2 by (intro toDouble_err0 toDouble_nonneg; simp add: p8)+
  have "s1 + p3 < 256" using e1 e2 e3 e4 r g b e by linarith
  then have e5: "\<bar>d - (s1 + p3)\<bar> \<le> e" and n5: "0 \<le> d"
    unfolding dd e_def using n3 n4 by (intro toDouble_err0 toDouble_nonneg; simp add: p8)+
  have "\<bar>d - (2126 / 10000 * r + 7152 / 10000 * g + 722 / 10000 * b)\<bar> < 1 / 100000"
    using e1 e2 e3 e4 e5 r g b e by linarith
  then show ?thesis using n5 by simp
qed

lemma isWhite_luminance:
  assumes "0 \<le> x" "x < width maze" "0 \<le> y" "y < height maze"
  shows "(231 < specLuminance (pixel maze x y) \<longrightarrow> isWhite maze x y)
     \<and> (specLuminance (pixel maze x y) < 231 \<longrightarrow> \<not> isWhite maze x y)"
proof -
  define c where "c = pixel maze x y"
  define k where "k = 2126 * qRed c + 7152 * qGreen c + 722 * qBlue c"
  define d where "d = toDouble (toDouble (toDouble (toDouble (2126 / 10000) * of_int (qRed c))
                                  + toDouble (toDouble (7152 / 10000) * of_int (qGreen c)))
                        + toDouble (toDouble (722 / 10000) * of_int (qBlue c)))"
  have rng: "0 \<le> qRed c" "qRed c \<le> 255" "0 \<le> qGreen c" "qGreen c \<le> 255"
    "0 \<le> qBlue c" "qBlue c \<le> 255"
    using channel_range by (simp_all add: qRed_def qGreen_def qBlue_def)
  have L: "specLuminance c = of_int k / 10000"
    by (simp add: specLuminance_def k_def)
  have cl: "0 \<le> d" "\<bar>d - specLuminance c\<bar> < 1 / 100000"
    using double_luminance_close[of "of_int (qRed c)" "of_int (qGreen c)" "of_int (qBlue c)"] rng
    by (simp_all add: d_def specLuminance_def)
  have w: "isWhite maze x y \<longleftrightarrow> 231 \<le> d"
  proof -
    have "isWhite maze x y \<longleftrightarrow> 230 < truncToInt d"
      using assms by (simp add: isWhite_def Let_def c_def d_def)
    also have "\<dots> \<longleftrightarrow> 231 \<le> \<lfloor>d\<rfloor>" using cl(1) by (auto simp: truncToInt_def)
    also have "\<dots> \<longleftrightarrow> 231 \<le> d" by (simp add: le_floor_iff)
    finally show ?thesis .
  qed
  have up: "isWhite maze x y" if "231 < specLuminance c"
  proof -
    have "(of_int 2310000 :: rat) < of_int k" using that unfolding L by simp
    then have "2310000 < k" by (simp only: of_int_less_iff)
    then have "2310001 \<le> k" by simp
    then have "(of_int 2310001 :: rat) \<le> of_int k" by (simp only: of_int_le_iff)
    then have "231 + 1 / 10000 \<le> specLuminance c" unfolding L by simp
    then show ?thesis using cl(2) w by linarith
  qed
  have down: "\<not> isWhite maze x y" if "specLuminance c < 231"
  proof -
    have "(of_int k :: rat) < of_int 2310000" using that unfolding L by simp
    then have "k < 2310000" by (simp only: of_int_less_iff)
    then have "k \<le> 2309999" by simp
    then have "(of_int k :: rat) \<le> of_int 2309999" by (simp only: of_int_le_iff)
    then have "specLuminance c \<le> 231 - 1 / 10000" unfolding L by simp
    then show ?thesis using cl(2) w by linarith
  qed
  show ?thesis using up down unfolding c_def by blast
qed

lemma isWhite_inside:
  "isWhite maze x y \<Longrightarrow> 0 \<le> x \<and> x < width maze \<and> 0 \<le> y \<and> y < height maze"
  by (auto simp: isWhite_def split: if_splits)

text \<open>
  Claim C6, as amended. For every well-formed image and cell size, \<open>buildGrid\<close>
  returns a grid with \<open>ceil(height / cellSize)\<close> rows of \<open>ceil(width / cellSize)\<close>
  cells, whatever the grid held before. The pixels of a cell are the pixels of the image
  in its square, at least one and fewer than \<open>cellSize * cellSize\<close> at the right and the
  lower edge, and the cell is free if and only if the fraction of these pixels that
  \<open>isWhite\<close> accepts is greater than 0.7. \<open>isWhite\<close> accepts a pixel when its
  luminance \<open>0.2126 R + 0.7152 G + 0.0722 B\<close>, computed in \<open>double\<close> and truncated to
  an \<open>int\<close>, exceeds 230: it accepts every pixel of the image whose luminance is above
  231 and none whose luminance is below 231. At a luminance of exactly 231 the rounding
  of the sum decides: the grey (231, 231, 231) is accepted, (214, 241, 182) is not.
\<close>

theorem buildGrid_cells:
  assumes "imageOk maze cellSize"
  shows "\<exists>g. buildGrid maze cellSize grid = Some g
     \<and> int (length g) = \<lceil>(of_int (height maze) :: rat) / of_int cellSize\<rceil>
     \<and> list_all (\<lambda>row. int (length row)
                        = \<lceil>(of_int (width maze) :: rat) / of_int cellSize\<rceil>) g
     \<and> (\<forall>gx gy. 0 \<le> gx \<and> gx < \<lceil>(of_int (width maze) :: rat) / of_int cellSize\<rceil>
                \<and> 0 \<le> gy \<and> gy < \<lceil>(of_int (height maze) :: rat) / of_int cellSize\<rceil>
           \<longrightarrow> cellPixels maze cellSize gx gy \<noteq> []
               \<and> distinct (cellPixels maze cellSize gx gy)
               \<and> set (cellPixels maze cellSize gx gy)
                   = {(x, y). gx * cellSize \<le> x \<and> x < gx * cellSize + cellSize \<and> x < width maze
                            \<and> gy * cellSize \<le> y \<and> y < gy * cellSize + cellSize
                            \<and> y < height maze}
               \<and> (g ! nat gy ! nat gx \<longleftrightarrow> 7 / 10 < whiteFraction maze cellSize gx gy))
     \<and> (\<forall>x y. (isWhite maze x y
                 \<longrightarrow> 0 \<le> x \<and> x < width maze \<and> 0 \<le> y \<and> y < height maze
                     \<and> 231 \<le> specLuminance (pixel maze x y))
              \<and> (0 \<le> x \<and> x < width maze \<and> 0 \<le> y \<and> y < height maze
                   \<and> 231 < specLuminance (pixel maze x y)
                 \<longrightarrow> isWhite maze x y))"
proof -
  note ok = imageOk_D[OF assms]
  have cs: "1 \<le> cellSize" "0 < cellSize" and wh: "0 \<le> width maze" "0 \<le> height maze"
    and sz: "width maze * height maze < 2 ^ 31"
    using ok by simp_all
  define gw gh where "gw = (width maze + cellSize - 1) div cellSize"
    and "gh = (height maze + cellSize - 1) div cellSize"
  have cw: "\<lceil>(of_int (width maze) :: rat) / of_int cellSize\<rceil> = gw"
    and ch: "\<lceil>(of_int (height maze) :: rat) / of_int cellSize\<rceil> = gh"
    using ceil_div[OF wh(1) cs(2)] ceil_div[OF wh(2) cs(2)] by (simp_all add: gw_def gh_def)
  have nn: "0 \<le> gw" "0 \<le> gh"
    using cs wh by (simp_all add: gw_def gh_def pos_imp_zdiv_nonneg_iff)
  define g where "g = map (\<lambda>gy. map (\<lambda>gx. classifyCell maze cellSize gx gy) (upto 0 (gw - 1)))
               (upto 0 (gh - 1))"
  have b: "buildGrid maze cellSize grid = Some g"
    unfolding g_def gw_def gh_def by (rule buildGrid_eq[OF cs(1) wh])
  have lg: "int (length g) = gh" using nn by (simp add: g_def)
  have lr: "list_all (\<lambda>row. int (length row) = gw) g"
    using nn by (simp add: g_def list_all_iff)
  have cell: "cellPixels maze cellSize gx gy \<noteq> []
      \<and> (g ! nat gy ! nat gx \<longleftrightarrow> 7 / 10 < whiteFraction maze cellSize gx gy)"
    if r: "0 \<le> gx" "gx < gw" "0 \<le> gy" "gy < gh" for gx gy
  proof -
    have ix: "gx * cellSize < width maze" and iy: "gy * cellSize < height maze"
      using cell_inside[OF cs(1) wh(1), of gx] cell_inside[OF cs(1) wh(2), of gy] r
      by (simp_all add: gw_def gh_def)
    have "g ! nat gy = map (\<lambda>gx. classifyCell maze cellSize gx gy) (upto 0 (gw - 1))"
      using r by (simp add: g_def nth_upto)
    then have "g ! nat gy ! nat gx = classifyCell maze cellSize gx gy"
      using r by (simp add: nth_upto)
    moreover have "0 < length (cellPixels maze cellSize gx gy)"
      using cellPixels_length[OF cs(1) r(1) ix r(3) iy] by simp
    ultimately show ?thesis
      using classifyCell_fraction[OF cs(1) r(1) ix r(3) iy sz] by simp
  qed
  have px: "(isWhite maze x y
                 \<longrightarrow> 0 \<le> x \<and> x < width maze \<and> 0 \<le> y \<and> y < height maze
                     \<and> 231 \<le> specLuminance (pixel maze x y))
              \<and> (0 \<le> x \<and> x < width maze \<and> 0 \<le> y \<and> y < height maze
                   \<and> 231 < specLuminance (pixel maze x y)
                 \<longrightarrow> isWhite maze x y)" for x y
    using isWhite_inside[of maze x y] isWhite_luminance[of x maze y] by (meson not_le)
  have cells: "\<forall>gx gy. 0 \<le> gx \<and> gx < gw \<and> 0 \<le> gy \<and> gy < gh
           \<longrightarrow> cellPixels maze cellSize gx gy \<noteq> []
               \<and> distinct (cellPixels maze cellSize gx gy)
               \<and> set (cellPixels maze cellSize gx gy)
                   = {(x, y). gx * cellSize \<le> x \<and> x < gx * cellSize + cellSize \<and> x < width maze
                            \<and> gy * cellSize \<le> y \<and> y < gy * cellSize + cellSize
                            \<and> y < height maze}
               \<and> (g ! nat gy ! nat gx \<longleftrightarrow> 7 / 10 < whiteFraction maze cellSize gx gy)"
    using cell cellPixels_distinct cellPixels_set by blast
  show ?thesis
    unfolding cw ch using b lg lr cells px by blast
qed

theorem buildGrid_cells_witness:
  "imageOk smallImage 2
   \<and> buildGrid smallImage 2 [] = Some [[True, False]]
   \<and> whiteFraction smallImage 2 0 0 = 1 \<and> whiteFraction smallImage 2 1 0 = 0
   \<and> specLuminance 0xFFD6F1B6 = 231 \<and> \<not> isWhite smallImage 2 0
   \<and> specLuminance 0xFFE7E7E7 = 231
   \<and> isWhite \<lparr>width = 1, height = 1, pixel = (\<lambda>x y. 0xFFE7E7E7)\<rparr> 0 0"
proof -
  have ok: "imageOk smallImage 2" by (simp add: imageOk_def smallImage_def)
  have "buildGrid smallImage 2 [] = Some [[True, False]]"
    "whiteFraction smallImage 2 0 0 = 1" "whiteFraction smallImage 2 1 0 = 0"
    "specLuminance 0xFFD6F1B6 = 231" "\<not> isWhite smallImage 2 0"
    "specLuminance 0xFFE7E7E7 = 231"
    "isWhite \<lparr>width = 1, height = 1, pixel = (\<lambda>x y. 0xFFE7E7E7)\<rparr> 0 0"
    by code_simp+
  then show ?thesis using ok buildGrid_cells[OF ok, of "[]"] by blast
qed

text \<open>
  The claim compares the luminance itself with 230. The pixel (231, 230, 230) has the
  luminance 230.2126, which exceeds 230, but the code truncates it to 230, which does
  not: for the image of this one pixel the fraction of the claim is 1 and the cell is
  blocked.
\<close>

theorem buildGrid_luminance_counterexample:
  "imageOk grayImage 1
   \<and> buildGrid grayImage 1 [] = Some [[False]]
   \<and> cellPixels grayImage 1 0 0 = [(0, 0)]
   \<and> specLuminance (pixel grayImage 0 0) = 2302126 / 10000
   \<and> specWhiteFraction grayImage 1 0 0 = 1"
proof -
  have "imageOk grayImage 1" by (simp add: imageOk_def grayImage_def)
  moreover have "buildGrid grayImage 1 [] = Some [[False]]" by code_simp
  moreover have "cellPixels grayImage 1 0 0 = [(0, 0)]" by code_simp
  moreover have "specLuminance (pixel grayImage 0 0) = 2302126 / 10000" by code_simp
  moreover have "specWhiteFraction grayImage 1 0 0 = 1" by code_simp
  ultimately show ?thesis by blast
qed

end
